theory Spec2Isabelle
  imports Complex_Main
begin

section \<open>The segment control of \<^verbatim>\<open>core/src/components/segment/segment.tsx\<close>\<close>

text \<open>
  The component is a Stencil class with mutable fields, watchers on two properties and a
  handful of event handlers. Every handler is embedded as a function from the component
  state to the new state. The events the component emits and the calls it makes on its
  collaborators (the paged view, the scheduler of the indicator animation, the scroll
  container) are appended to a trace kept in the state, in program order. A JavaScript
  \<^verbatim>\<open>TypeError\<close> (a property read on \<^verbatim>\<open>undefined\<close>) is the left summand of the result.
\<close>

subsection \<open>Data\<close>

text \<open>
  \<^verbatim>\<open>SegmentValue\<close> is \<^verbatim>\<open>string | number\<close> and is only ever compared with \<^verbatim>\<open>===\<close>;
  strings stand for it here. An optional value is \<^verbatim>\<open>undefined\<close> when \<open>None\<close>.
\<close>

type_synonym segment_value = string

text \<open>
  What the segment reads from one \<^verbatim>\<open>ion-segment-button\<close> child: its value, its disabled
  flag, its content id, whether its (shadow) tree holds a \<^verbatim>\<open>.segment-button-indicator\<close>
  element, and the left edge and the width of its bounding client rectangle.
\<close>

record segment_button =
  btn_value :: segment_value
  btn_disabled :: bool
  contentId :: "string option"
  has_indicator :: bool
  rect_left :: real
  rect_width :: real

text \<open>
  A DOM element the segment can meet as an event target or under the pointer: its own
  child button number \<open>i\<close> (document order, the position in \<^verbatim>\<open>getButtons()\<close>), the
  \<^verbatim>\<open>ion-segment\<close> host itself, or anything else. Element identity (\<^verbatim>\<open>!==\<close>) is equality
  of these references. A button number outside the child list names no child of this
  segment and is treated like any other foreign element.
\<close>

datatype element = SegmentButton nat | SegmentEl | OtherEl

datatype error = TypeError

datatype effect =
    IonChange "segment_value option"
  | IonSelect "segment_value option"
  | IonStyle
  | SetContent string bool
  | IndicatorAnimation element element
  | ScrollTo nat bool
  | SetFocus element
  | StopImmediatePropagation
  | PreventDefault

text \<open>
  The component state. \<open>val\<close> is the \<^verbatim>\<open>value\<close> property. \<open>segmentViewEl\<close> is \<open>None\<close> when
  no paged view is attached and \<open>Some d\<close> for an attached view whose \<^verbatim>\<open>disabled\<close> property
  is \<open>d\<close>; \<open>gesture\<close> is \<open>Some e\<close> once the gesture exists, enabled iff \<open>e\<close>. The two
  presentation classes the segment toggles on its buttons are kept here:
  \<open>buttonsActivated\<close> is the \<^verbatim>\<open>segment-button-activated\<close> class, which \<^verbatim>\<open>setActivated\<close>
  toggles on all buttons at once, and \<open>afterChecked\<close> is the one button carrying
  \<^verbatim>\<open>segment-button-after-checked\<close> after \<^verbatim>\<open>setCheckedClasses\<close>. \<open>rtl\<close> is \<^verbatim>\<open>isRTL(this.el)\<close>
  and \<open>activeElement\<close> is \<^verbatim>\<open>document.activeElement\<close>.
\<close>

record segment =
  val :: "segment_value option"
  disabled :: bool
  scrollable :: bool
  swipeGesture :: bool
  selectOnFocus :: bool
  activated :: bool
  valueBeforeGesture :: "segment_value option"
  lastNextIndex :: "int option"
  triggerScrollOnValueChange :: "bool option"
  segmentViewEl :: "bool option"
  gesture :: "bool option"
  buttons :: "segment_button list"
  buttonsActivated :: bool
  afterChecked :: "nat option"
  rtl :: bool
  activeElement :: "element option"
  trace :: "effect list"

record gesture_detail =
  currentX :: real
  target :: element
  elementFromPoint :: "element option"

record segment_view_scroll_event =
  scrollRatio :: real
  isManualScroll :: bool
  fromSegmentView :: bool

datatype selector = First | Last | Next | Previous

datatype key = ArrowRight | ArrowLeft | Home | End | Space | Enter | OtherKey

subsection \<open>Helpers of the host language\<close>

text \<open>\<^verbatim>\<open>Array.prototype.findIndex\<close>; \<open>None\<close> is the result \<^verbatim>\<open>-1\<close>.\<close>

fun findIndex :: "('a \<Rightarrow> bool) \<Rightarrow> 'a list \<Rightarrow> nat option" where
  "findIndex P [] = None"
| "findIndex P (x # xs) =
     (if P x then Some 0 else map_option Suc (findIndex P xs))"

text \<open>Indexing an array with an integer; \<open>None\<close> is \<^verbatim>\<open>undefined\<close>.\<close>

definition at_index :: "'a list \<Rightarrow> int \<Rightarrow> 'a option" where
  "at_index xs k = (if 0 \<le> k \<and> k < int (length xs) then Some (xs ! nat k) else None)"

text \<open>\<^verbatim>\<open>Math.round\<close>: the nearest integer, a half rounded up.\<close>

definition Math_round :: "real \<Rightarrow> int" where
  "Math_round x = \<lfloor>x + 1 / 2\<rfloor>"

definition emit :: "effect \<Rightarrow> segment \<Rightarrow> segment" where
  "emit e s = s\<lparr>trace := trace s @ [e]\<rparr>"

subsection \<open>Queries on the buttons\<close>

text \<open>
  \<^verbatim>\<open>buttons.find((button) => button.value === v)\<close> and the \<^verbatim>\<open>findIndex\<close> of the same
  predicate: the first button whose value is \<open>v\<close>. No button has the value \<^verbatim>\<open>undefined\<close>.
\<close>

definition find_button :: "segment \<Rightarrow> segment_value option \<Rightarrow> nat option" where
  "find_button s v =
     (case v of None \<Rightarrow> None
      | Some x \<Rightarrow> findIndex (\<lambda>b. btn_value b = x) (buttons s))"

definition is_button :: "segment \<Rightarrow> element \<Rightarrow> bool" where
  "is_button s e = (case e of SegmentButton i \<Rightarrow> i < length (buttons s) | _ \<Rightarrow> False)"

text \<open>
  \<^verbatim>\<open>getIndicator(button) !== null\<close>. Only a segment button holds an indicator
  element; the host's shadow tree is a bare slot.
\<close>

definition getIndicator :: "segment \<Rightarrow> element \<Rightarrow> bool" where
  "getIndicator s e =
     (case e of
        SegmentButton i \<Rightarrow> i < length (buttons s) \<and> has_indicator (buttons s ! i)
      | _ \<Rightarrow> False)"

subsection \<open>Operations without recursion\<close>

definition emitValueChange :: "segment \<Rightarrow> segment" where
  "emitValueChange s = emit (IonChange (val s)) s"

definition setActivated :: "bool \<Rightarrow> segment \<Rightarrow> segment" where
  "setActivated a s = s\<lparr>buttonsActivated := a, activated := a\<rparr>"

definition setCheckedClasses :: "segment \<Rightarrow> segment" where
  "setCheckedClasses s =
     (let next = (case find_button s (val s) of None \<Rightarrow> 0 | Some i \<Rightarrow> i + 1)
      in s\<lparr>afterChecked := (if next < length (buttons s) then Some next else None)\<rparr>)"

text \<open>A content id is used only when it is truthy: present and not the empty string.\<close>

definition updateSegmentView :: "bool \<Rightarrow> segment \<Rightarrow> segment" where
  "updateSegmentView smoothScroll s =
     (case find_button s (val s) of
        None \<Rightarrow> s
      | Some i \<Rightarrow>
          (case contentId (buttons s ! i) of
             None \<Rightarrow> s
           | Some c \<Rightarrow>
               if c = [] then s
               else if segmentViewEl s \<noteq> None then emit (SetContent c smoothScroll) s
               else s))"

text \<open>
  \<^verbatim>\<open>scrollActiveButtonIntoView\<close>: in scrollable mode the container is scrolled so that the
  active button is centred. The trace records which button and whether smoothly; the
  pixel offset computed from the two bounding boxes is not part of the state.
\<close>

definition scrollActiveButtonIntoView :: "bool \<Rightarrow> segment \<Rightarrow> segment" where
  "scrollActiveButtonIntoView smoothScroll s =
     (if scrollable s then
        (case find_button s (val s) of
           None \<Rightarrow> s
         | Some i \<Rightarrow> emit (ScrollTo i smoothScroll) s)
      else s)"

definition gestureChanged :: "segment \<Rightarrow> segment" where
  "gestureChanged s =
     (case gesture s of
        None \<Rightarrow> s
      | Some _ \<Rightarrow> s\<lparr>gesture := Some (\<not> scrollable s \<and> \<not> disabled s \<and> swipeGesture s)\<rparr>)"

text \<open>The watcher of \<^verbatim>\<open>disabled\<close>.\<close>

definition disabledChanged :: "segment \<Rightarrow> segment" where
  "disabledChanged s =
     (let s1 = gestureChanged s
      in if segmentViewEl s1 = None
         then s1\<lparr>buttons := map (\<lambda>b. b\<lparr>btn_disabled := disabled s1\<rparr>) (buttons s1)\<rparr>
         else s1\<lparr>segmentViewEl := Some (disabled s1)\<rparr>)"

text \<open>
  Assigning the \<^verbatim>\<open>disabled\<close> property: Stencil stores the value and runs the watcher when
  the new value differs from the old one.
\<close>

definition set_disabled :: "bool \<Rightarrow> segment \<Rightarrow> segment" where
  "set_disabled d s = (if d = disabled s then s else disabledChanged (s\<lparr>disabled := d\<rparr>))"

subsection \<open>Assigning the value, its watcher, and the indicator move\<close>

text \<open>
  \<open>set_value\<close> is the assignment \<^verbatim>\<open>this.value = v\<close> to the mutable, watched property:
  Stencil stores \<open>v\<close> and, when it differs from the stored value, calls the watcher
  \<^verbatim>\<open>valueChanged(v, oldValue)\<close> before the assignment returns. The watcher assigns the
  property itself (directly, and through \<^verbatim>\<open>checkButton\<close>), so the three functions are
  mutually recursive.

  \<open>IndicatorAnimation p c\<close> records the \<^verbatim>\<open>writeTask\<close> that \<^verbatim>\<open>checkButton\<close> schedules: the
  slide of the indicator of \<open>c\<close> from the place of the indicator of \<open>p\<close>.
\<close>

function set_value :: "segment_value option \<Rightarrow> segment \<Rightarrow> error + segment"
  and valueChanged :: "segment_value option \<Rightarrow> segment_value option \<Rightarrow> segment \<Rightarrow> error + segment"
  and checkButton :: "element option \<Rightarrow> element option \<Rightarrow> segment \<Rightarrow> error + segment"
where
  "set_value v s =
     (if v = val s then Inr s else valueChanged v (val s) (s\<lparr>val := v\<rparr>))"
| "valueChanged v oldValue s =
     (if segmentViewEl s \<noteq> None \<and> v = None then
        (case buttons s of
           [] \<Rightarrow> Inl TypeError
         | b # _ \<Rightarrow> set_value (Some (btn_value b)) s)
      else
        (case
           (if oldValue \<noteq> None \<and> v \<noteq> None then
              (case find_button s oldValue of
                 None \<Rightarrow> Inr s
               | Some p \<Rightarrow>
                   (case find_button s v of
                      None \<Rightarrow> Inr s
                    | Some c \<Rightarrow>
                        if segmentViewEl s = None
                        then checkButton (Some (SegmentButton p)) (Some (SegmentButton c)) s
                        else if triggerScrollOnValueChange s \<noteq> Some False
                        then Inr (updateSegmentView True s)
                        else Inr s))
            else if v \<noteq> None \<and> oldValue = None \<and> segmentViewEl s \<noteq> None
            then Inr (updateSegmentView True s)
            else Inr s)
         of
           Inl e \<Rightarrow> Inl e
         | Inr s1 \<Rightarrow>
             (let s2 = emit (IonSelect v) s1;
                  s3 = (if segmentViewEl s2 = None
                        then scrollActiveButtonIntoView True s2 else s2)
              in Inr (s3\<lparr>triggerScrollOnValueChange := None\<rparr>))))"
| "checkButton previous current s =
     (case previous of
        None \<Rightarrow> Inl TypeError
      | Some p \<Rightarrow>
          (case current of
             None \<Rightarrow> Inl TypeError
           | Some c \<Rightarrow>
               if \<not> getIndicator s p \<or> \<not> getIndicator s c then Inr s
               else
                 (case c of
                    SegmentButton j \<Rightarrow>
                      (case set_value (Some (btn_value (buttons s ! j)))
                              (emit (IndicatorAnimation p c) s) of
                         Inl e \<Rightarrow> Inl e
                       | Inr s1 \<Rightarrow> Inr (setCheckedClasses s1))
                  | _ \<Rightarrow> Inr s)))"
  by pat_completeness auto

text \<open>
  Termination: an assignment of the value already stored stops; the watcher of a defined
  value assigns only the value it was called for; the watcher of \<^verbatim>\<open>undefined\<close> assigns
  a defined value.
\<close>

termination
proof -
  have found: "findIndex P xs = Some i \<Longrightarrow> P (xs ! i)"
    for P :: "segment_button \<Rightarrow> bool" and xs i
    by (induction xs arbitrary: i) (auto split: if_splits)
  show ?thesis
    apply (relation "measure (\<lambda>x. case x of
        Inl (v, s) \<Rightarrow> (if v = val s then 0 else if v = None then 5 else 3)
      | Inr (Inl (v, old, s)) \<Rightarrow> (if v = None then 4 else if val s = v then 2 else 5)
      | Inr (Inr (p, c, s)) \<Rightarrow>
          (case c of
             Some (SegmentButton j) \<Rightarrow>
               (if Some (btn_value (buttons s ! j)) = val s then 1 else 4)
           | _ \<Rightarrow> 1))")
    apply (auto simp: emit_def find_button_def dest: found)
    done
qed

declare set_value.simps [simp del]
declare valueChanged.simps [simp del]
declare checkButton.simps [simp del]

subsection \<open>The slot change and the paged view's scroll event\<close>

text \<open>\<^verbatim>\<open>onSlottedItemsChange\<close> runs the watcher on the current value, with no old value.\<close>

definition onSlottedItemsChange :: "segment \<Rightarrow> error + segment" where
  "onSlottedItemsChange s = valueChanged (val s) None s"

text \<open>The index the scroll handler derives from the ratio.\<close>

definition scroll_next_index :: "segment_view_scroll_event \<Rightarrow> segment \<Rightarrow> int" where
  "scroll_next_index ev s = Math_round (scrollRatio ev * (real (length (buttons s)) - 1))"

text \<open>
  \<open>fromSegmentView\<close> is the test that the event was dispatched from this segment's view:
  \<^verbatim>\<open>ev.composedPath().includes(segmentViewEl) || dispatchedFrom?.contains(segmentEl)\<close>.
\<close>

definition handleSegmentViewScroll ::
  "segment_view_scroll_event \<Rightarrow> segment \<Rightarrow> error + segment" where
  "handleSegmentViewScroll ev s =
     (if \<not> isManualScroll ev then Inr s
      else if fromSegmentView ev then
        (if buttons s = [] then Inr s
         else
           (let index = find_button s (val s);
                current = map_option SegmentButton index;
                nextIndex = scroll_next_index ev s
            in if lastNextIndex s = None \<or> lastNextIndex s \<noteq> Some nextIndex then
                 (case checkButton current
                         (map_option SegmentButton
                            (at_index [0..<length (buttons s)] nextIndex))
                         (s\<lparr>lastNextIndex := Some nextIndex,
                            triggerScrollOnValueChange := Some False\<rparr>) of
                    Inl e \<Rightarrow> Inl e
                  | Inr s1 \<Rightarrow> Inr (emitValueChange s1))
               else Inr s))
      else Inr s)"

subsection \<open>The drag gesture\<close>

definition activate :: "gesture_detail \<Rightarrow> segment \<Rightarrow> error + segment" where
  "activate detail s =
     (let clicked = target detail;
          checked = find_button s (val s)
      in case clicked of
           SegmentButton j \<Rightarrow>
             if \<not> is_button s clicked then Inr s
             else
               (case
                  (if checked = None then
                     (case set_value (Some (btn_value (buttons s ! j))) s of
                        Inl e \<Rightarrow> Inl e
                      | Inr s1 \<Rightarrow> Inr (setCheckedClasses s1))
                   else Inr s)
                of
                  Inl e \<Rightarrow> Inl e
                | Inr s1 \<Rightarrow>
                    Inr (if val s1 = Some (btn_value (buttons s1 ! j))
                         then setActivated True s1 else s1))
         | _ \<Rightarrow> Inr s)"

definition onStart :: "gesture_detail \<Rightarrow> segment \<Rightarrow> error + segment" where
  "onStart detail s = activate detail (s\<lparr>valueBeforeGesture := val s\<rparr>)"

text \<open>
  \<open>elementFromPoint detail\<close> is \<^verbatim>\<open>root.elementFromPoint(currentX, previousY)\<close>, the element
  under the pointer at the height of the checked button, \<open>None\<close> when there is none.
  The boolean the source returns is dropped by both callers and is not modelled.
\<close>

definition setNextIndex :: "gesture_detail \<Rightarrow> bool \<Rightarrow> segment \<Rightarrow> error + segment" where
  "setNextIndex detail isEnd s =
     (case find_button s (val s) of
        None \<Rightarrow> Inr s
      | Some index \<Rightarrow>
          (let previous = SegmentButton index;
               left = rect_left (buttons s ! index);
               width = rect_width (buttons s ! index);
               x = currentX detail;
               nextEl = elementFromPoint detail;
               decreaseIndex = (if rtl s then x > left + width else x < left);
               increaseIndex = (if rtl s then x < left else x > left + width);
               nextIndex =
                 (if activated s \<and> \<not> isEnd then
                    (if decreaseIndex then
                       (if 1 \<le> index then Some (index - 1) else None)
                     else if increaseIndex then
                       (if index + 1 < length (buttons s) then Some (index + 1) else None)
                     else None)
                  else None);
               current0 =
                 (case nextIndex of
                    None \<Rightarrow> None
                  | Some k \<Rightarrow>
                      if \<not> btn_disabled (buttons s ! k) then Some (SegmentButton k) else None);
               current = (if \<not> activated s \<and> isEnd then nextEl else current0)
           in case current of
                None \<Rightarrow> Inr s
              | Some c \<Rightarrow>
                  if c = SegmentEl then Inr s
                  else if previous \<noteq> c then checkButton (Some previous) (Some c) s
                  else Inr s))"

definition onMove :: "gesture_detail \<Rightarrow> segment \<Rightarrow> error + segment" where
  "onMove detail s = setNextIndex detail False s"

definition onEnd :: "gesture_detail \<Rightarrow> segment \<Rightarrow> error + segment" where
  "onEnd detail s =
     (case setNextIndex detail True (setActivated False s) of
        Inl e \<Rightarrow> Inl e
      | Inr s1 \<Rightarrow>
          (let s2 = emit StopImmediatePropagation s1;
               s3 = (if val s2 \<noteq> None \<and> valueBeforeGesture s2 \<noteq> val s2
                     then updateSegmentView True (emitValueChange s2) else s2)
           in Inr (s3\<lparr>valueBeforeGesture := None\<rparr>)))"

text \<open>The move events of one drag, in arrival order.\<close>

fun run_moves :: "gesture_detail list \<Rightarrow> segment \<Rightarrow> error + segment" where
  "run_moves [] s = Inr s"
| "run_moves (d # ds) s =
     (case onMove d s of Inl e \<Rightarrow> Inl e | Inr s1 \<Rightarrow> run_moves ds s1)"

subsection \<open>Keyboard navigation\<close>

definition enabled_buttons :: "segment \<Rightarrow> nat list" where
  "enabled_buttons s =
     filter (\<lambda>i. \<not> btn_disabled (buttons s ! i)) [0..<length (buttons s)]"

definition or_else :: "'a option \<Rightarrow> 'a option \<Rightarrow> 'a option" where
  "or_else a b = (case a of None \<Rightarrow> b | Some x \<Rightarrow> Some x)"

text \<open>
  \<^verbatim>\<open>getSegmentButton\<close>: the result is a position in \<^verbatim>\<open>getButtons()\<close>, \<open>None\<close> for
  \<^verbatim>\<open>undefined\<close>.
\<close>

definition getSegmentButton :: "selector \<Rightarrow> segment \<Rightarrow> nat option" where
  "getSegmentButton sel s =
     (let bs = enabled_buttons s;
          currIndex =
            (case findIndex (\<lambda>i. activeElement s = Some (SegmentButton i)) bs of
               None \<Rightarrow> - 1
             | Some i \<Rightarrow> int i)
      in case sel of
           First \<Rightarrow> at_index bs 0
         | Last \<Rightarrow> at_index bs (int (length bs) - 1)
         | Next \<Rightarrow> or_else (at_index bs (currIndex + 1)) (at_index bs 0)
         | Previous \<Rightarrow> or_else (at_index bs (currIndex - 1)) (at_index bs (int (length bs) - 1)))"

text \<open>\<^verbatim>\<open>current.setFocus()\<close>: only a segment button has the method.\<close>

definition setFocus :: "element \<Rightarrow> segment \<Rightarrow> error + segment" where
  "setFocus e s = (if is_button s e then Inr (emit (SetFocus e) s) else Inl TypeError)"

definition onKeyDown :: "key \<Rightarrow> segment \<Rightarrow> error + segment" where
  "onKeyDown k s =
     (let arrow = (\<lambda>sel. map_option SegmentButton (getSegmentButton sel s));
          (current, keyDownSelectsButton, s0) =
            (case k of
               ArrowRight \<Rightarrow>
                 (arrow (if rtl s then Previous else Next), selectOnFocus s, emit PreventDefault s)
             | ArrowLeft \<Rightarrow>
                 (arrow (if rtl s then Next else Previous), selectOnFocus s, emit PreventDefault s)
             | Home \<Rightarrow> (arrow First, selectOnFocus s, emit PreventDefault s)
             | End \<Rightarrow> (arrow Last, selectOnFocus s, emit PreventDefault s)
             | Space \<Rightarrow> (activeElement s, True, emit PreventDefault s)
             | Enter \<Rightarrow> (activeElement s, True, emit PreventDefault s)
             | OtherKey \<Rightarrow> (None, selectOnFocus s, s))
      in case current of
           None \<Rightarrow> Inr s0
         | Some c \<Rightarrow>
             (if keyDownSelectsButton then
                (let previous = map_option SegmentButton (find_button s0 (val s0))
                 in case checkButton (or_else previous (Some c)) (Some c) s0 of
                      Inl e \<Rightarrow> Inl e
                    | Inr s1 \<Rightarrow>
                        setFocus c (if Some c \<noteq> previous then emitValueChange s1 else s1))
              else setFocus c s0))"

subsection \<open>Reading the trace\<close>

text \<open>The effects a handler added to the trace when it took \<open>s\<close> to \<open>s'\<close>.\<close>

definition new_effects :: "segment \<Rightarrow> segment \<Rightarrow> effect list" where
  "new_effects s s' = drop (length (trace s)) (trace s')"

fun is_IonChange :: "effect \<Rightarrow> bool" where
  "is_IonChange (IonChange _) = True"
| "is_IonChange _ = False"

fun is_SetContent :: "effect \<Rightarrow> bool" where
  "is_SetContent (SetContent _ _) = True"
| "is_SetContent _ = False"

fun is_IndicatorAnimation :: "effect \<Rightarrow> bool" where
  "is_IndicatorAnimation (IndicatorAnimation _ _) = True"
| "is_IndicatorAnimation _ = False"

subsection \<open>What an assignment of the value leaves alone\<close>

text \<open>
  \<open>frame s s'\<close>: the state \<open>s'\<close> differs from \<open>s\<close> at most in the value, the suppression
  flag, the after-checked class and the trace.
\<close>

definition frame :: "segment \<Rightarrow> segment \<Rightarrow> bool" where
  "frame s s' \<longleftrightarrow>
     s' = s\<lparr>val := val s', triggerScrollOnValueChange := triggerScrollOnValueChange s',
            afterChecked := afterChecked s', trace := trace s'\<rparr>"

subsection \<open>Conditions named by the claims\<close>

text \<open>
  The guards of \<^verbatim>\<open>handleSegmentViewScroll\<close>, all passed: a user-driven event of this
  segment's view, some button, and an index other than the last one reported.
\<close>

definition scroll_acts :: "segment_view_scroll_event \<Rightarrow> segment \<Rightarrow> bool" where
  "scroll_acts ev s \<longleftrightarrow>
     isManualScroll ev \<and> fromSegmentView ev \<and> buttons s \<noteq> [] \<and>
     lastNextIndex s \<noteq> Some (scroll_next_index ev s)"

text \<open>
  From the specification's words, to be compared with \<^verbatim>\<open>setNextIndex\<close>: with the checked
  option at position \<open>i\<close>, a pointer left of the left edge of its box aims at \<open>i - 1\<close> in
  left-to-right mode and at \<open>i + 1\<close> in right-to-left mode; a pointer right of the right
  edge, the reverse; a pointer within the box aims nowhere.
\<close>

definition crossing_target :: "segment \<Rightarrow> gesture_detail \<Rightarrow> nat \<Rightarrow> int option" where
  "crossing_target s d i =
     (let b = buttons s ! i
      in if currentX d < rect_left b then Some (if rtl s then int i + 1 else int i - 1)
         else if rect_left b + rect_width b < currentX d
         then Some (if rtl s then int i - 1 else int i + 1)
         else None)"

subsection \<open>Example groups\<close>

definition mk_button :: "segment_value \<Rightarrow> real \<Rightarrow> segment_button" where
  "mk_button v l =
     \<lparr>btn_value = v, btn_disabled = False, contentId = None, has_indicator = True,
      rect_left = l, rect_width = 100\<rparr>"

definition mk_segment :: "segment_value option \<Rightarrow> segment_button list \<Rightarrow> segment" where
  "mk_segment v bs =
     \<lparr>val = v, disabled = False, scrollable = False, swipeGesture = True,
      selectOnFocus = False, activated = False, valueBeforeGesture = None,
      lastNextIndex = None, triggerScrollOnValueChange = None, segmentViewEl = None,
      gesture = Some True, buttons = bs, buttonsActivated = False, afterChecked = None,
      rtl = False, activeElement = None, trace = []\<rparr>"

definition abc :: "segment_button list" where
  "abc = [mk_button ''a'' 0, mk_button ''b'' 100, mk_button ''c'' 200]"

text \<open>Two options, the second without an indicator element, during a drag begun on the first.\<close>

definition no_indicator_segment :: segment where
  "no_indicator_segment =
     (mk_segment (Some ''a'') [mk_button ''a'' 0, (mk_button ''b'' 100)\<lparr>has_indicator := False\<rparr>])
       \<lparr>activated := True\<rparr>"

text \<open>Three options and an attached paged view.\<close>

definition view_segment :: segment where
  "view_segment = (mk_segment (Some ''a'') abc)\<lparr>segmentViewEl := Some False\<rparr>"

text \<open>Three options with content ids, the first checked, and an attached paged view.\<close>

definition paged_segment :: segment where
  "paged_segment =
     (mk_segment (Some ''a'')
        [(mk_button ''a'' 0)\<lparr>contentId := Some ''page-a''\<rparr>,
         (mk_button ''b'' 100)\<lparr>contentId := Some ''page-b''\<rparr>,
         (mk_button ''c'' 200)\<lparr>contentId := Some ''page-c''\<rparr>])
       \<lparr>segmentViewEl := Some False\<rparr>"

text \<open>A user-driven scroll event of the view, half way along.\<close>

definition half_way :: segment_view_scroll_event where
  "half_way = \<lparr>scrollRatio = 1 / 2, isManualScroll = True, fromSegmentView = True\<rparr>"

text \<open>Five options, the first and the last disabled.\<close>

definition keyboard_segment :: segment where
  "keyboard_segment =
     (mk_segment (Some ''b'')
        [(mk_button ''a'' 0)\<lparr>btn_disabled := True\<rparr>, mk_button ''b'' 100,
         mk_button ''c'' 200, mk_button ''d'' 300, (mk_button ''e'' 400)\<lparr>btn_disabled := True\<rparr>])"

text \<open>Two options with content ids, an attached paged view, and no value yet.\<close>

definition content_segment :: segment where
  "content_segment =
     (mk_segment None
        [(mk_button ''a'' 0)\<lparr>contentId := Some ''page-a''\<rparr>,
         (mk_button ''b'' 100)\<lparr>contentId := Some ''page-b''\<rparr>])
       \<lparr>segmentViewEl := Some False\<rparr>"

text \<open>
  Two options and an attached paged view, found through the second option: the first has
  no content id. No value yet.
\<close>

definition late_content_segment :: segment where
  "late_content_segment =
     (mk_segment None
        [mk_button ''a'' 0, (mk_button ''b'' 100)\<lparr>contentId := Some ''page-b''\<rparr>])
       \<lparr>segmentViewEl := Some False\<rparr>"

text \<open>Three options during a drag begun on the first, the checked one.\<close>

definition drag_segment :: segment where
  "drag_segment = (mk_segment (Some ''a'') abc)\<lparr>activated := True, buttonsActivated := True\<rparr>"

text \<open>The same with the middle option disabled.\<close>

definition middle_disabled_segment :: segment where
  "middle_disabled_segment =
     (mk_segment (Some ''a'')
        [mk_button ''a'' 0, (mk_button ''b'' 100)\<lparr>btn_disabled := True\<rparr>, mk_button ''c'' 200])
       \<lparr>activated := True, buttonsActivated := True\<rparr>"

text \<open>A gesture event of a drag begun on the first option, with the pointer at \<open>x\<close> over \<open>e\<close>.\<close>

definition pointer_at :: "real \<Rightarrow> element option \<Rightarrow> gesture_detail" where
  "pointer_at x e = \<lparr>currentX = x, target = SegmentButton 0, elementFromPoint = e\<rparr>"

text \<open>
  The moves of a drag over \<open>abc\<close> from the first option to the second, on to the third, and
  back to the second.
\<close>

definition abc_moves :: "gesture_detail list" where
  "abc_moves =
     [pointer_at 150 (Some (SegmentButton 1)), pointer_at 250 (Some (SegmentButton 2)),
      pointer_at 150 (Some (SegmentButton 1))]"

section \<open>Facts about the assignment and the indicator move\<close>

lemma findIndex_Some_P: "findIndex P xs = Some i \<Longrightarrow> i < length xs \<and> P (xs ! i)"
  by (induction xs arbitrary: i) (auto split: if_splits)

lemma find_button_value:
  "find_button s (Some x) = Some c \<Longrightarrow> btn_value (buttons s ! c) = x"
  by (auto simp: find_button_def dest: findIndex_Some_P)

lemma frame_refl: "frame s s"
  by (simp add: frame_def)

lemma frame_trans: "frame s s1 \<Longrightarrow> frame s1 s2 \<Longrightarrow> frame s s2"
  unfolding frame_def
  by (cases s, cases s1, cases s2) simp

lemma frame_fields:
  assumes "frame s s'"
  shows "disabled s' = disabled s" "scrollable s' = scrollable s" "swipeGesture s' = swipeGesture s"
    "selectOnFocus s' = selectOnFocus s" "activated s' = activated s"
    "valueBeforeGesture s' = valueBeforeGesture s" "lastNextIndex s' = lastNextIndex s"
    "segmentViewEl s' = segmentViewEl s" "gesture s' = gesture s" "buttons s' = buttons s"
    "buttonsActivated s' = buttonsActivated s" "rtl s' = rtl s" "activeElement s' = activeElement s"
  using assms unfolding frame_def by (cases s, cases s', simp)+

lemma frame_emit: "frame s (emit e s)"
  by (simp add: frame_def emit_def)

lemma frame_setCheckedClasses: "frame s (setCheckedClasses s)"
  by (simp add: frame_def setCheckedClasses_def Let_def)

lemma frame_updateSegmentView: "frame s (updateSegmentView b s)"
  by (auto simp: frame_def updateSegmentView_def emit_def split: option.splits)

lemma trace_updateSegmentView:
  "\<exists>t. trace (updateSegmentView b s) = trace s @ t \<and>
       (t = [] \<or> (\<exists>c. t = [SetContent c b] \<and> segmentViewEl s \<noteq> None))"
  by (auto simp: updateSegmentView_def emit_def split: option.splits)

lemma find_button_simps [simp]:
  "find_button (emit e s) v = find_button s v"
  "find_button (setCheckedClasses s) v = find_button s v"
  "find_button (updateSegmentView b s) v = find_button s v"
  "find_button (s\<lparr>trace := t\<rparr>) v = find_button s v"
  "find_button (s\<lparr>triggerScrollOnValueChange := g\<rparr>) v = find_button s v"
  "find_button (s\<lparr>val := w\<rparr>) v = find_button s v"
  by (auto simp: find_button_def emit_def setCheckedClasses_def updateSegmentView_def Let_def split: option.splits)

lemma checkButton_stored_cases:
  "val s = Some (btn_value (buttons s ! j)) \<Longrightarrow>
   checkButton (Some p) (Some (SegmentButton j)) s =
     Inr (if getIndicator s p \<and> getIndicator s (SegmentButton j)
          then setCheckedClasses (emit (IndicatorAnimation p (SegmentButton j)) s) else s)"
  by (simp add: checkButton.simps set_value.simps emit_def)

lemma simple_fields [simp]:
  "val (emit e s) = val s" "trace (emit e s) = trace s @ [e]"
  "segmentViewEl (emit e s) = segmentViewEl s" "scrollable (emit e s) = scrollable s"
  "buttons (emit e s) = buttons s"
  "val (setCheckedClasses s) = val s" "trace (setCheckedClasses s) = trace s"
  "segmentViewEl (setCheckedClasses s) = segmentViewEl s"
  "scrollable (setCheckedClasses s) = scrollable s"
  "buttons (setCheckedClasses s) = buttons s"
  "val (updateSegmentView b s) = val s"
  "segmentViewEl (updateSegmentView b s) = segmentViewEl s"
  "scrollable (updateSegmentView b s) = scrollable s"
  "buttons (updateSegmentView b s) = buttons s"
  "val (scrollActiveButtonIntoView b s) = val s"
  "segmentViewEl (scrollActiveButtonIntoView b s) = segmentViewEl s"
  "buttons (scrollActiveButtonIntoView b s) = buttons s"
  by (auto simp: emit_def setCheckedClasses_def updateSegmentView_def
      scrollActiveButtonIntoView_def Let_def split: option.splits)

lemma frame_scrollActive: "frame s (scrollActiveButtonIntoView b s)"
  by (auto simp: frame_def scrollActiveButtonIntoView_def emit_def split: option.splits)

lemma trace_scrollActive:
  "\<exists>t. trace (scrollActiveButtonIntoView b s) = trace s @ t \<and>
       (\<forall>e\<in>set t. \<not> is_IonChange e \<and> \<not> is_SetContent e \<and> \<not> is_IndicatorAnimation e)"
  by (auto simp: scrollActiveButtonIntoView_def emit_def split: option.splits)

lemma frame_trigger: "frame s (s\<lparr>triggerScrollOnValueChange := g\<rparr>)"
  by (simp add: frame_def)

text \<open>The statements of the watcher after its branches.\<close>

lemma watcher_tail:
  "\<exists>s' t. (let s2 = emit (IonSelect v) s1;
                s3 = (if segmentViewEl s2 = None then scrollActiveButtonIntoView True s2 else s2)
            in s3\<lparr>triggerScrollOnValueChange := None\<rparr>) = s' \<and> frame s1 s' \<and> val s' = val s1 \<and>
          trace s' = trace s1 @ IonSelect v # t \<and>
          (\<forall>e\<in>set t. \<not> is_IonChange e \<and> \<not> is_SetContent e \<and> \<not> is_IndicatorAnimation e)"
proof -
  obtain t where t: "trace (scrollActiveButtonIntoView True (emit (IonSelect v) s1)) = trace (emit (IonSelect v) s1) @ t"
    "\<forall>e\<in>set t. \<not> is_IonChange e \<and> \<not> is_SetContent e \<and> \<not> is_IndicatorAnimation e"
    using trace_scrollActive by blast
  have f: "frame s1 (scrollActiveButtonIntoView True (emit (IonSelect v) s1))"
    by (rule frame_trans [OF frame_emit frame_scrollActive])
  show ?thesis
  proof (cases "segmentViewEl s1 = None")
    case True
    then show ?thesis using t f
      by (auto simp: Let_def intro: frame_trans [OF _ frame_trigger])
  next
    case False
    then show ?thesis
      by (auto simp: Let_def intro: frame_trans [OF frame_emit frame_trigger])
  qed
qed

lemma frame_indicator_move:
  "frame s (setCheckedClasses (emit (IndicatorAnimation p c) s))"
  by (rule frame_trans [OF frame_emit frame_setCheckedClasses])

lemma watcher_branches:
  assumes "val s = Some x"
  shows "\<exists>s1 t1.
     (if old \<noteq> None \<and> Some x \<noteq> None then
              (case find_button s old of
                 None \<Rightarrow> Inr s
               | Some p \<Rightarrow>
                   (case find_button s (Some x) of
                      None \<Rightarrow> Inr s
                    | Some c \<Rightarrow>
                        if segmentViewEl s = None
                        then checkButton (Some (SegmentButton p)) (Some (SegmentButton c)) s
                        else if triggerScrollOnValueChange s \<noteq> Some False
                        then Inr (updateSegmentView True s)
                        else Inr s))
            else if Some x \<noteq> None \<and> old = None \<and> segmentViewEl s \<noteq> None
            then Inr (updateSegmentView True s)
            else Inr s) = Inr s1 \<and> frame s s1 \<and> val s1 = val s \<and> trace s1 = trace s @ t1
       \<and> (\<forall>e\<in>set t1. \<not> is_IonChange e)
       \<and> (segmentViewEl s = None \<or> (old \<noteq> None \<and> triggerScrollOnValueChange s = Some False)
                \<longrightarrow> (\<forall>e\<in>set t1. \<not> is_SetContent e))
       \<and> (segmentViewEl s \<noteq> None \<longrightarrow> (\<forall>e\<in>set t1. \<not> is_IndicatorAnimation e))
       \<and> length (filter is_IndicatorAnimation t1) \<le> 1"
proof -
  obtain tu where tu: "trace (updateSegmentView True s) = trace s @ tu"
     "tu = [] \<or> (\<exists>c. tu = [SetContent c True] \<and> segmentViewEl s \<noteq> None)"
    using trace_updateSegmentView by blast
  have tu': "\<forall>e\<in>set tu. \<not> is_IonChange e \<and> \<not> is_IndicatorAnimation e"
    using tu(2) by auto
  have tu'': "filter is_IndicatorAnimation tu = []"
    using tu' by (simp add: filter_empty_conv)
  have cb: "\<And>p c. find_button s (Some x) = Some c \<Longrightarrow>
     checkButton (Some (SegmentButton p)) (Some (SegmentButton c)) s =
     Inr (if getIndicator s (SegmentButton p) \<and> getIndicator s (SegmentButton c)
          then setCheckedClasses (emit (IndicatorAnimation (SegmentButton p) (SegmentButton c)) s) else s)"
    using assms by (intro checkButton_stored_cases) (simp add: find_button_value)
  show ?thesis
    using tu tu' tu''
    by (auto simp: cb frame_refl frame_updateSegmentView frame_indicator_move split: option.splits)
qed

lemma valueChanged_defined:
  assumes "val s = Some x"
  shows "\<exists>s' t. valueChanged (Some x) old s = Inr s' \<and> frame s s' \<and> val s' = Some x
           \<and> trace s' = trace s @ t
           \<and> IonSelect (Some x) \<in> set t
           \<and> (\<forall>e\<in>set t. \<not> is_IonChange e)
           \<and> (segmentViewEl s = None \<or> (old \<noteq> None \<and> triggerScrollOnValueChange s = Some False)
                \<longrightarrow> (\<forall>e\<in>set t. \<not> is_SetContent e))
           \<and> (segmentViewEl s \<noteq> None \<longrightarrow> (\<forall>e\<in>set t. \<not> is_IndicatorAnimation e))
           \<and> length (filter is_IndicatorAnimation t) \<le> 1"
proof -
  from watcher_branches [OF assms, of old] obtain s1 t1 where
    b: "(if old \<noteq> None \<and> Some x \<noteq> None then
              (case find_button s old of
                 None \<Rightarrow> Inr s
               | Some p \<Rightarrow>
                   (case find_button s (Some x) of
                      None \<Rightarrow> Inr s
                    | Some c \<Rightarrow>
                        if segmentViewEl s = None
                        then checkButton (Some (SegmentButton p)) (Some (SegmentButton c)) s
                        else if triggerScrollOnValueChange s \<noteq> Some False
                        then Inr (updateSegmentView True s)
                        else Inr s))
            else if Some x \<noteq> None \<and> old = None \<and> segmentViewEl s \<noteq> None
            then Inr (updateSegmentView True s)
            else Inr s) = Inr s1"
    and f1: "frame s s1" and v1: "val s1 = val s" and tr1: "trace s1 = trace s @ t1"
    and p1: "\<forall>e\<in>set t1. \<not> is_IonChange e"
      "segmentViewEl s = None \<or> (old \<noteq> None \<and> triggerScrollOnValueChange s = Some False)
                \<longrightarrow> (\<forall>e\<in>set t1. \<not> is_SetContent e)"
      "segmentViewEl s \<noteq> None \<longrightarrow> (\<forall>e\<in>set t1. \<not> is_IndicatorAnimation e)"
      "length (filter is_IndicatorAnimation t1) \<le> 1"
    by blast
  from watcher_tail [of "Some x" s1] obtain s' t2 where
    t: "(let s2 = emit (IonSelect (Some x)) s1;
                s3 = (if segmentViewEl s2 = None then scrollActiveButtonIntoView True s2 else s2)
            in s3\<lparr>triggerScrollOnValueChange := None\<rparr>) = s'"
    and f2: "frame s1 s'" and v2: "val s' = val s1"
    and tr2: "trace s' = trace s1 @ IonSelect (Some x) # t2"
    and p2: "\<forall>e\<in>set t2. \<not> is_IonChange e \<and> \<not> is_SetContent e \<and> \<not> is_IndicatorAnimation e"
    by blast
  have vc: "valueChanged (Some x) old s = Inr s'"
    by (subst valueChanged.simps) (simp only: b t [symmetric] sum.case, simp add: Let_def)
  have fl: "filter is_IndicatorAnimation t2 = []"
    using p2 by (simp add: filter_empty_conv)
  show ?thesis
    using vc frame_trans [OF f1 f2] v1 v2 tr1 tr2 p1 p2 assms fl
    by (intro exI [of _ s'] exI [of _ "t1 @ IonSelect (Some x) # t2"]) auto
qed

lemma frame_val: "frame s (s\<lparr>val := v\<rparr>)"
  by (simp add: frame_def)

lemma set_value_defined:
  "\<exists>s' t. set_value (Some x) s = Inr s' \<and> frame s s' \<and> val s' = Some x
           \<and> trace s' = trace s @ t
           \<and> (val s \<noteq> Some x \<longrightarrow> IonSelect (Some x) \<in> set t)
           \<and> (val s = Some x \<longrightarrow> s' = s)
           \<and> (\<forall>e\<in>set t. \<not> is_IonChange e)
           \<and> (segmentViewEl s = None \<or> (val s \<noteq> None \<and> triggerScrollOnValueChange s = Some False)
                \<longrightarrow> (\<forall>e\<in>set t. \<not> is_SetContent e))
           \<and> (segmentViewEl s \<noteq> None \<longrightarrow> (\<forall>e\<in>set t. \<not> is_IndicatorAnimation e))
           \<and> length (filter is_IndicatorAnimation t) \<le> 1"
proof (cases "val s = Some x")
  case True
  then have "set_value (Some x) s = Inr s"
    by (simp add: set_value.simps)
  with True show ?thesis
    by (intro exI [of _ s] exI [of _ "[]"]) (simp add: frame_refl)
next
  case False
  have sv: "set_value (Some x) s = valueChanged (Some x) (val s) (s\<lparr>val := Some x\<rparr>)"
    using False by (simp add: set_value.simps)
  have "val (s\<lparr>val := Some x\<rparr>) = Some x" by simp
  from valueChanged_defined [OF this, of "val s"]
  obtain s' t where *: "valueChanged (Some x) (val s) (s\<lparr>val := Some x\<rparr>) = Inr s'"
    "frame (s\<lparr>val := Some x\<rparr>) s'" "val s' = Some x"
    "trace s' = trace (s\<lparr>val := Some x\<rparr>) @ t" "IonSelect (Some x) \<in> set t"
    "\<forall>e\<in>set t. \<not> is_IonChange e"
    "segmentViewEl (s\<lparr>val := Some x\<rparr>) = None \<or>
       (val s \<noteq> None \<and> triggerScrollOnValueChange (s\<lparr>val := Some x\<rparr>) = Some False)
        \<longrightarrow> (\<forall>e\<in>set t. \<not> is_SetContent e)"
    "segmentViewEl (s\<lparr>val := Some x\<rparr>) \<noteq> None \<longrightarrow> (\<forall>e\<in>set t. \<not> is_IndicatorAnimation e)"
    "length (filter is_IndicatorAnimation t) \<le> 1"
    by blast
  show ?thesis
    using * False sv frame_trans [OF frame_val *(2)]
    by (intro exI [of _ s'] exI [of _ t]) simp
qed

lemma getIndicator_emit [simp]: "getIndicator (emit e s) c = getIndicator s c"
  by (simp add: getIndicator_def emit_def split: element.splits)

lemma checkButton_cases:
  "\<exists>s' t. checkButton (Some p) (Some c) s = Inr s' \<and> frame s s' \<and> trace s' = trace s @ t
     \<and> (\<forall>e\<in>set t. \<not> is_IonChange e)
     \<and> (if getIndicator s p \<and> getIndicator s c
        then (\<exists>j t'. c = SegmentButton j \<and> val s' = Some (btn_value (buttons s ! j))
               \<and> t = IndicatorAnimation p c # t'
               \<and> (segmentViewEl s \<noteq> None \<longrightarrow> (\<forall>e\<in>set t'. \<not> is_IndicatorAnimation e))
               \<and> length (filter is_IndicatorAnimation t') \<le> 1
               \<and> (segmentViewEl s = None \<or>
                    (val s \<noteq> None \<and> triggerScrollOnValueChange s = Some False)
                    \<longrightarrow> (\<forall>e\<in>set t'. \<not> is_SetContent e)))
        else s' = s \<and> t = [])"
proof (cases "getIndicator s p \<and> getIndicator s c")
  case False
  then have "checkButton (Some p) (Some c) s = Inr s"
    by (auto simp: checkButton.simps)
  with False show ?thesis
    by (intro exI [of _ s] exI [of _ "[]"]) (simp add: frame_refl)
next
  case True
  then obtain j where c: "c = SegmentButton j"
    by (cases c) (auto simp: getIndicator_def)
  let ?s0 = "emit (IndicatorAnimation p c) s"
  from set_value_defined [of "btn_value (buttons s ! j)" ?s0]
  obtain s1 t1 where *: "set_value (Some (btn_value (buttons s ! j))) ?s0 = Inr s1"
    "frame ?s0 s1" "val s1 = Some (btn_value (buttons s ! j))"
    "trace s1 = trace ?s0 @ t1"
    "\<forall>e\<in>set t1. \<not> is_IonChange e"
    "segmentViewEl ?s0 = None \<or> (val ?s0 \<noteq> None \<and> triggerScrollOnValueChange ?s0 = Some False)
                \<longrightarrow> (\<forall>e\<in>set t1. \<not> is_SetContent e)"
    "segmentViewEl ?s0 \<noteq> None \<longrightarrow> (\<forall>e\<in>set t1. \<not> is_IndicatorAnimation e)"
    "length (filter is_IndicatorAnimation t1) \<le> 1"
    by blast
  have cb: "checkButton (Some p) (Some c) s = Inr (setCheckedClasses s1)"
    using True c *(1) by (simp add: checkButton.simps)
  have fr: "frame s (setCheckedClasses s1)"
    by (rule frame_trans [OF frame_trans [OF frame_emit *(2)] frame_setCheckedClasses])
  have trg: "triggerScrollOnValueChange ?s0 = triggerScrollOnValueChange s"
    by (simp add: emit_def)
  show ?thesis
    using True c cb fr * trg
    by (intro exI [of _ "setCheckedClasses s1"] exI [of _ "IndicatorAnimation p c # t1"]) simp
qed

lemma new_effects_append: "trace s' = trace s @ t \<Longrightarrow> new_effects s s' = t"
  by (simp add: new_effects_def)

lemma set_value_undefined_no_view:
  assumes "val s \<noteq> None" "segmentViewEl s = None"
  shows "\<exists>s' t. set_value None s = Inr s' \<and> val s' = None \<and>
           trace s' = trace s @ IonSelect None # t \<and>
           (\<forall>e\<in>set t. \<not> is_IonChange e \<and> \<not> is_SetContent e \<and> \<not> is_IndicatorAnimation e)"
proof -
  from watcher_tail [of None "s\<lparr>val := None\<rparr>"] obtain s' t where
    t: "(let s2 = emit (IonSelect None) (s\<lparr>val := None\<rparr>);
             s3 = (if segmentViewEl s2 = None then scrollActiveButtonIntoView True s2 else s2)
         in s3\<lparr>triggerScrollOnValueChange := None\<rparr>) = s'"
    and v: "val s' = val (s\<lparr>val := None\<rparr>)"
    and tr: "trace s' = trace (s\<lparr>val := None\<rparr>) @ IonSelect None # t"
    and p: "\<forall>e\<in>set t. \<not> is_IonChange e \<and> \<not> is_SetContent e \<and> \<not> is_IndicatorAnimation e"
    by blast
  have "set_value None s = Inr s'"
    using assms t by (auto simp: set_value.simps valueChanged.simps Let_def)
  with v tr p show ?thesis
    by (intro exI [of _ s'] exI [of _ t]) simp
qed

lemma set_value_undefined_view:
  assumes "val s \<noteq> None" "segmentViewEl s \<noteq> None" "buttons s = b # bs"
  shows "set_value None s = set_value (Some (btn_value b)) (s\<lparr>val := None\<rparr>)"
  using assms by (auto simp: set_value.simps [of None] valueChanged.simps [of None])

section \<open>Facts about the scroll handler\<close>

lemma checkButton_undefined:
  "checkButton None c s = Inl TypeError" "checkButton (Some p) None s = Inl TypeError"
  by (simp_all add: checkButton.simps)

lemma scroll_idle: "\<not> scroll_acts ev s \<Longrightarrow> handleSegmentViewScroll ev s = Inr s"
  by (auto simp: scroll_acts_def handleSegmentViewScroll_def Let_def)

lemma scroll_acting:
  "scroll_acts ev s \<Longrightarrow>
   handleSegmentViewScroll ev s =
     (case checkButton (map_option SegmentButton (find_button s (val s)))
             (map_option SegmentButton
                (at_index [0..<length (buttons s)] (scroll_next_index ev s)))
             (s\<lparr>lastNextIndex := Some (scroll_next_index ev s),
                triggerScrollOnValueChange := Some False\<rparr>) of
        Inl e \<Rightarrow> Inl e
      | Inr s1 \<Rightarrow> Inr (emitValueChange s1))"
  by (auto simp: scroll_acts_def handleSegmentViewScroll_def Let_def)

lemma scroll_acting_undefined:
  assumes "scroll_acts ev s"
    "find_button s (val s) = None \<or>
     at_index [0..<length (buttons s)] (scroll_next_index ev s) = None"
  shows "handleSegmentViewScroll ev s = Inl TypeError"
proof (cases "find_button s (val s)")
  case None
  then show ?thesis
    using assms(1) by (simp add: scroll_acting checkButton_undefined)
next
  case (Some i)
  with assms(2) have "at_index [0..<length (buttons s)] (scroll_next_index ev s) = None"
    by simp
  with Some show ?thesis
    using assms(1) by (simp add: scroll_acting checkButton_undefined)
qed

lemma find_button_Some_val: "find_button s v = Some i \<Longrightarrow> v \<noteq> None"
  by (auto simp: find_button_def split: option.splits)

lemma getIndicator_fields [simp]:
  "getIndicator (s\<lparr>lastNextIndex := a, triggerScrollOnValueChange := g\<rparr>) e = getIndicator s e"
  by (simp add: getIndicator_def split: element.splits)

lemma scroll_acting_summary:
  assumes "scroll_acts ev s" "find_button s (val s) = Some i"
    "at_index [0..<length (buttons s)] (scroll_next_index ev s) = Some j"
  shows "\<exists>s1 t. handleSegmentViewScroll ev s = Inr (emitValueChange s1) \<and>
           frame (s\<lparr>lastNextIndex := Some (scroll_next_index ev s),
                     triggerScrollOnValueChange := Some False\<rparr>) s1 \<and>
           trace s1 = trace s @ t \<and>
           (\<forall>e\<in>set t. \<not> is_IonChange e) \<and> (\<forall>e\<in>set t. \<not> is_SetContent e) \<and>
           (segmentViewEl s \<noteq> None \<longrightarrow>
              length (filter is_IndicatorAnimation t) =
                (if getIndicator s (SegmentButton i) \<and> getIndicator s (SegmentButton j)
                 then 1 else 0))"
proof -
  let ?s0 = "s\<lparr>lastNextIndex := Some (scroll_next_index ev s),
                triggerScrollOnValueChange := Some False\<rparr>"
  from checkButton_cases [of "SegmentButton i" "SegmentButton j" ?s0]
  obtain s1 t where cb: "checkButton (Some (SegmentButton i)) (Some (SegmentButton j)) ?s0 = Inr s1"
    and fr: "frame ?s0 s1" and tr: "trace s1 = trace ?s0 @ t"
    and ic: "\<forall>e\<in>set t. \<not> is_IonChange e"
    and cs: "if getIndicator ?s0 (SegmentButton i) \<and> getIndicator ?s0 (SegmentButton j)
        then (\<exists>j' t'. SegmentButton j = SegmentButton j' \<and>
               val s1 = Some (btn_value (buttons ?s0 ! j'))
               \<and> t = IndicatorAnimation (SegmentButton i) (SegmentButton j) # t'
               \<and> (segmentViewEl ?s0 \<noteq> None \<longrightarrow> (\<forall>e\<in>set t'. \<not> is_IndicatorAnimation e))
               \<and> length (filter is_IndicatorAnimation t') \<le> 1
               \<and> (segmentViewEl ?s0 = None \<or>
                    (val ?s0 \<noteq> None \<and> triggerScrollOnValueChange ?s0 = Some False)
                    \<longrightarrow> (\<forall>e\<in>set t'. \<not> is_SetContent e)))
        else s1 = ?s0 \<and> t = []"
    by blast
  have h: "handleSegmentViewScroll ev s = Inr (emitValueChange s1)"
    using assms cb by (simp add: scroll_acting)
  have v: "val s \<noteq> None"
    using assms(2) by (rule find_button_Some_val)
  have sc: "\<forall>e\<in>set t. \<not> is_SetContent e"
    using cs v by (auto split: if_splits)
  have an: "segmentViewEl s \<noteq> None \<longrightarrow>
              length (filter is_IndicatorAnimation t) =
                (if getIndicator s (SegmentButton i) \<and> getIndicator s (SegmentButton j)
                 then 1 else 0)"
    using cs by (auto split: if_splits simp: filter_empty_conv)
  show ?thesis
    using h fr tr ic sc an by (intro exI [of _ s1] exI [of _ t]) simp
qed

lemma scroll_next_index_emit [simp]:
  "scroll_next_index ev (emitValueChange s) = scroll_next_index ev s"
  by (simp add: scroll_next_index_def emitValueChange_def emit_def)

lemma scroll_next_index_frame:
  "frame s s' \<Longrightarrow> scroll_next_index ev s' = scroll_next_index ev s"
  by (simp add: scroll_next_index_def frame_fields)

lemma scroll_twice:
  assumes "handleSegmentViewScroll ev s = Inr s1"
  shows "handleSegmentViewScroll ev s1 = Inr s1"
proof (cases "scroll_acts ev s")
  case False
  then have "s1 = s" using assms by (simp add: scroll_idle)
  with False show ?thesis by (simp add: scroll_idle)
next
  case True
  let ?s0 = "s\<lparr>lastNextIndex := Some (scroll_next_index ev s),
                triggerScrollOnValueChange := Some False\<rparr>"
  from assms True obtain i j where
    ij: "find_button s (val s) = Some i"
      "at_index [0..<length (buttons s)] (scroll_next_index ev s) = Some j"
    using scroll_acting_undefined [OF True] by (cases "find_button s (val s)";
      cases "at_index [0..<length (buttons s)] (scroll_next_index ev s)") auto
  from scroll_acting_summary [OF True ij] assms obtain s' where
    s1: "s1 = emitValueChange s'" and fr: "frame ?s0 s'"
    by auto
  have "lastNextIndex s' = Some (scroll_next_index ev s)"
    using frame_fields(7) [OF fr] by simp
  then have "lastNextIndex s1 = Some (scroll_next_index ev s)"
    by (simp add: s1 emitValueChange_def emit_def)
  moreover have "scroll_next_index ev s' = scroll_next_index ev s"
    using scroll_next_index_frame [OF fr] by (simp add: scroll_next_index_def)
  then have "scroll_next_index ev s1 = scroll_next_index ev s"
    by (simp add: s1)
  ultimately have "\<not> scroll_acts ev s1"
    by (simp add: scroll_acts_def)
  then show ?thesis by (rule scroll_idle)
qed

lemma Math_round_range:
  assumes "0 \<le> r" "r \<le> 1" "0 < n"
  shows "0 \<le> Math_round (r * (real n - 1)) \<and> Math_round (r * (real n - 1)) < int n"
proof -
  have m: "0 \<le> real n - 1" using assms by simp
  have "0 \<le> r * (real n - 1)"
    using assms m by simp
  moreover have "r * (real n - 1) \<le> 1 * (real n - 1)"
    using assms m by (intro mult_right_mono) simp_all
  ultimately have "0 \<le> r * (real n - 1) + 1 / 2" "r * (real n - 1) + 1 / 2 < real n"
    by simp_all
  then show ?thesis
    unfolding Math_round_def by (simp add: floor_less_iff)
qed

lemma paged_segment_half:
  "\<exists>s'. handleSegmentViewScroll half_way paged_segment = Inr s' \<and> val s' = Some ''b'' \<and>
      new_effects paged_segment s' =
        [IndicatorAnimation (SegmentButton 0) (SegmentButton 1), IonSelect (Some ''b''),
         IonChange (Some ''b'')]"
  by (simp add: handleSegmentViewScroll_def scroll_next_index_def Math_round_def at_index_def
      checkButton.simps set_value.simps valueChanged.simps find_button_def getIndicator_def
      emitValueChange_def emit_def setCheckedClasses_def new_effects_def half_way_def
      paged_segment_def mk_segment_def mk_button_def Let_def)

lemma paged_segment_assigned:
  "\<exists>s'. set_value (Some ''b'') paged_segment = Inr s' \<and>
      new_effects paged_segment s' = [SetContent ''page-b'' True, IonSelect (Some ''b'')]"
  by (simp add: set_value.simps valueChanged.simps find_button_def updateSegmentView_def
      emit_def new_effects_def paged_segment_def mk_segment_def mk_button_def Let_def)

section \<open>Facts about the drag gesture\<close>

lemma find_button_less: "find_button s v = Some i \<Longrightarrow> i < length (buttons s)"
  by (auto simp: find_button_def split: option.splits dest: findIndex_Some_P)

lemma onMove_target:
  assumes "activated s" "find_button s (val s) = Some i" "0 \<le> rect_width (buttons s ! i)"
  shows "onMove d s =
     (case crossing_target s d i of
        None \<Rightarrow> Inr s
      | Some k \<Rightarrow>
          if k < 0 \<or> int (length (buttons s)) \<le> k then Inr s
          else if btn_disabled (buttons s ! nat k) then Inr s
          else checkButton (Some (SegmentButton i)) (Some (SegmentButton (nat k))) s)"
proof -
  have "0 < i \<Longrightarrow> nat (int i - 1) = i - 1" by simp
  moreover have "nat (int i + 1) = i + 1" by simp
  moreover have "i - Suc 0 \<noteq> i \<or> i = 0" by auto
  ultimately show ?thesis
    using assms find_button_less [OF assms(2)]
    unfolding onMove_def setNextIndex_def crossing_target_def Let_def
    by (cases "rtl s") (auto simp: not_less not_le)
qed

lemma onMove_blocked:
  assumes "activated s" "find_button s (val s) = Some i" "0 \<le> rect_width (buttons s ! i)"
    "\<forall>k. (Suc k = i \<or> k = Suc i) \<and> k < length (buttons s) \<longrightarrow> btn_disabled (buttons s ! k)"
  shows "onMove d s = Inr s"
proof (cases "crossing_target s d i")
  case None
  then show ?thesis by (simp add: onMove_target [OF assms(1-3)])
next
  case (Some k)
  then have k: "k = int i - 1 \<or> k = int i + 1"
    by (auto simp: crossing_target_def Let_def split: if_splits)
  show ?thesis
  proof (cases "k < 0 \<or> int (length (buttons s)) \<le> k")
    case True
    with Some show ?thesis by (simp add: onMove_target [OF assms(1-3)])
  next
    case False
    then have "nat k < length (buttons s)" "Suc (nat k) = i \<or> nat k = Suc i"
      using k by auto
    with assms(4) have "btn_disabled (buttons s ! nat k)" by blast
    with Some False show ?thesis by (simp add: onMove_target [OF assms(1-3)])
  qed
qed

lemma setNextIndex_shape:
  "setNextIndex d e s = Inr s \<or>
   (\<exists>p c. setNextIndex d e s = checkButton (Some p) (Some c) s)"
  by (auto simp: setNextIndex_def Let_def split: option.splits)

lemma setNextIndex_summary:
  "\<exists>s' t. setNextIndex d e s = Inr s' \<and> frame s s' \<and> trace s' = trace s @ t \<and>
          (\<forall>x\<in>set t. \<not> is_IonChange x)"
proof -
  from setNextIndex_shape [of d e s] show ?thesis
  proof
    assume "setNextIndex d e s = Inr s"
    then show ?thesis
      by (intro exI [of _ s] exI [of _ "[]"]) (simp add: frame_refl)
  next
    assume "\<exists>p c. setNextIndex d e s = checkButton (Some p) (Some c) s"
    then obtain p c where "setNextIndex d e s = checkButton (Some p) (Some c) s"
      by blast
    with checkButton_cases [of p c s] show ?thesis
      by auto
  qed
qed

lemma run_moves_summary:
  "\<exists>s' t. run_moves ds s = Inr s' \<and> frame s s' \<and> trace s' = trace s @ t \<and>
          (\<forall>x\<in>set t. \<not> is_IonChange x)"
proof (induction ds arbitrary: s)
  case Nil
  show ?case
    by (intro exI [of _ s] exI [of _ "[]"]) (simp add: frame_refl)
next
  case (Cons d ds)
  from setNextIndex_summary [of d False s] obtain s1 t1 where
    1: "onMove d s = Inr s1" "frame s s1" "trace s1 = trace s @ t1"
       "\<forall>x\<in>set t1. \<not> is_IonChange x"
    unfolding onMove_def by blast
  from Cons.IH [of s1] obtain s2 t2 where
    2: "run_moves ds s1 = Inr s2" "frame s1 s2" "trace s2 = trace s1 @ t2"
       "\<forall>x\<in>set t2. \<not> is_IonChange x"
    by blast
  show ?case
    using 1 2 frame_trans [OF 1(2) 2(2)]
    by (intro exI [of _ s2] exI [of _ "t1 @ t2"]) auto
qed

lemma activate_summary:
  "\<exists>s0 t. activate d s = Inr s0 \<and> valueBeforeGesture s0 = valueBeforeGesture s \<and>
          trace s0 = trace s @ t \<and> (\<forall>x\<in>set t. \<not> is_IonChange x)"
proof (cases "\<exists>j. target d = SegmentButton j \<and> is_button s (target d) \<and>
                  find_button s (val s) = None")
  case True
  then obtain j where j: "target d = SegmentButton j" "is_button s (target d)"
    "find_button s (val s) = None"
    by blast
  from set_value_defined [of "btn_value (buttons s ! j)" s] obtain s1 t where
    1: "set_value (Some (btn_value (buttons s ! j))) s = Inr s1" "frame s s1"
       "trace s1 = trace s @ t" "\<forall>x\<in>set t. \<not> is_IonChange x"
    by blast
  have "activate d s =
          Inr (if val (setCheckedClasses s1) = Some (btn_value (buttons (setCheckedClasses s1) ! j))
               then setActivated True (setCheckedClasses s1) else setCheckedClasses s1)"
    using j 1(1) by (simp add: activate_def Let_def)
  then show ?thesis
    using 1 frame_fields(6) [OF 1(2)]
    by (intro exI [of _ "if val (setCheckedClasses s1) =
            Some (btn_value (buttons (setCheckedClasses s1) ! j))
          then setActivated True (setCheckedClasses s1) else setCheckedClasses s1"] exI [of _ t])
       (simp add: setActivated_def setCheckedClasses_def Let_def)
next
  case False
  then have "activate d s = Inr s \<or> activate d s = Inr (setActivated True s)"
    by (auto simp: activate_def Let_def split: element.splits)
  then show ?thesis
  proof
    assume "activate d s = Inr s"
    then show ?thesis by (intro exI [of _ s] exI [of _ "[]"]) simp
  next
    assume "activate d s = Inr (setActivated True s)"
    then show ?thesis
      by (intro exI [of _ "setActivated True s"] exI [of _ "[]"]) (simp add: setActivated_def)
  qed
qed

lemma onStart_summary:
  "\<exists>s0 t. onStart d s = Inr s0 \<and> valueBeforeGesture s0 = val s \<and>
          trace s0 = trace s @ t \<and> (\<forall>x\<in>set t. \<not> is_IonChange x)"
  using activate_summary [of d "s\<lparr>valueBeforeGesture := val s\<rparr>"]
  by (simp add: onStart_def)

lemma onEnd_summary:
  "\<exists>s2 t. onEnd d s = Inr s2 \<and> trace s2 = trace s @ t \<and>
          filter is_IonChange t =
            (if val s2 \<noteq> None \<and> val s2 \<noteq> valueBeforeGesture s
             then [IonChange (val s2)] else [])"
proof -
  from setNextIndex_summary [of d True "setActivated False s"] obtain s1 t1 where
    1: "setNextIndex d True (setActivated False s) = Inr s1" "frame (setActivated False s) s1"
       "trace s1 = trace (setActivated False s) @ t1" "\<forall>x\<in>set t1. \<not> is_IonChange x"
    by blast
  have vb: "valueBeforeGesture s1 = valueBeforeGesture s"
    using frame_fields(6) [OF 1(2)] by (simp add: setActivated_def)
  have tr: "trace s1 = trace s @ t1"
    using 1(3) by (simp add: setActivated_def)
  have f1: "filter is_IonChange t1 = []"
    using 1(4) by (simp add: filter_empty_conv)
  obtain tu where tu:
    "trace (updateSegmentView True (emitValueChange (emit StopImmediatePropagation s1)))
       = trace (emitValueChange (emit StopImmediatePropagation s1)) @ tu"
    "tu = [] \<or> (\<exists>c. tu = [SetContent c True] \<and>
        segmentViewEl (emitValueChange (emit StopImmediatePropagation s1)) \<noteq> None)"
    using trace_updateSegmentView by blast
  have fu: "filter is_IonChange tu = []"
    using tu(2) by auto
  define c where "c \<longleftrightarrow> val s1 \<noteq> None \<and> val s1 \<noteq> valueBeforeGesture s"
  define s3 where
    "s3 = (if c then updateSegmentView True (emitValueChange (emit StopImmediatePropagation s1))
           else emit StopImmediatePropagation s1)\<lparr>valueBeforeGesture := None\<rparr>"
  define t where "t = t1 @ StopImmediatePropagation # (if c then IonChange (val s1) # tu else [])"
  have "valueBeforeGesture (emit StopImmediatePropagation s1) = valueBeforeGesture s"
    using vb by (simp add: emit_def)
  then have e: "onEnd d s = Inr s3"
    using 1(1) unfolding s3_def c_def by (auto simp: onEnd_def Let_def)
  have v: "val s3 = val s1"
    unfolding s3_def by (simp add: emitValueChange_def)
  have t: "trace s3 = trace s @ t"
    unfolding s3_def t_def using tu(1) tr by (simp add: emitValueChange_def)
  have f: "filter is_IonChange t = (if c then [IonChange (val s1)] else [])"
    unfolding t_def using f1 fu by simp
  have "filter is_IonChange t =
          (if val s3 \<noteq> None \<and> val s3 \<noteq> valueBeforeGesture s
           then [IonChange (val s3)] else [])"
    using f unfolding v c_def .
  with e t show ?thesis
    by blast
qed

lemma abc_session:
  "\<exists>s0 s1 s2.
     onStart (pointer_at 50 (Some (SegmentButton 0))) (mk_segment (Some ''a'') abc) = Inr s0 \<and>
     run_moves abc_moves s0 = Inr s1 \<and>
     onEnd (pointer_at 150 (Some (SegmentButton 1))) s1 = Inr s2 \<and> val s2 = Some ''b''"
  by (simp add: onStart_def activate_def onMove_def onEnd_def setNextIndex_def
      checkButton.simps set_value.simps valueChanged.simps find_button_def getIndicator_def
      is_button_def setActivated_def setCheckedClasses_def scrollActiveButtonIntoView_def
      updateSegmentView_def emitValueChange_def emit_def
      abc_moves_def pointer_at_def mk_segment_def abc_def mk_button_def Let_def)

section \<open>The drag session commits once, on release\<close>

text \<open>
  C1. A drag session is the start event, the move events in order and the end event. No
  handler of the session fails. Up to and including the last move no \<^verbatim>\<open>ionChange\<close> is
  emitted. The end event emits \<^verbatim>\<open>ionChange\<close> exactly once when the value it ends with is
  defined and differs from the value at the start of the gesture (the snapshot
  \<^verbatim>\<open>valueBeforeGesture\<close>), carrying that value, and not at all otherwise; so the whole
  session emits it once or never.
\<close>

theorem commit_only_on_settle:
  "\<exists>s0 s1 s2. onStart dS s = Inr s0 \<and> run_moves ms s0 = Inr s1 \<and> onEnd dE s1 = Inr s2 \<and>
     filter is_IonChange (new_effects s s1) = [] \<and>
     filter is_IonChange (new_effects s1 s2) =
       (if val s2 \<noteq> None \<and> val s2 \<noteq> val s then [IonChange (val s2)] else []) \<and>
     filter is_IonChange (new_effects s s2) =
       (if val s2 \<noteq> None \<and> val s2 \<noteq> val s then [IonChange (val s2)] else [])"
proof -
  from onStart_summary [of dS s] obtain s0 t0 where
    0: "onStart dS s = Inr s0" "valueBeforeGesture s0 = val s" "trace s0 = trace s @ t0"
       "\<forall>x\<in>set t0. \<not> is_IonChange x"
    by blast
  from run_moves_summary [of ms s0] obtain s1 t1 where
    1: "run_moves ms s0 = Inr s1" "frame s0 s1" "trace s1 = trace s0 @ t1"
       "\<forall>x\<in>set t1. \<not> is_IonChange x"
    by blast
  from onEnd_summary [of dE s1] obtain s2 t2 where
    2: "onEnd dE s1 = Inr s2" "trace s2 = trace s1 @ t2"
       "filter is_IonChange t2 =
            (if val s2 \<noteq> None \<and> val s2 \<noteq> valueBeforeGesture s1
             then [IonChange (val s2)] else [])"
    by blast
  have vb: "valueBeforeGesture s1 = val s"
    using frame_fields(6) [OF 1(2)] 0(2) by simp
  have n1: "new_effects s s1 = t0 @ t1"
    using 0(3) 1(3) by (simp add: new_effects_def)
  have n2: "new_effects s1 s2 = t2"
    using 2(2) by (simp add: new_effects_def)
  have n3: "new_effects s s2 = t0 @ t1 @ t2"
    using 0(3) 1(3) 2(2) by (simp add: new_effects_def)
  have f: "filter is_IonChange t0 = []" "filter is_IonChange t1 = []"
    using 0(4) 1(4) by (simp_all add: filter_empty_conv)
  show ?thesis
    using 0(1) 1(1) 2(1) 2(3) vb f
    by (intro exI [of _ s0] exI [of _ s1] exI [of _ s2]) (simp add: n1 n2 n3)
qed

text \<open>
  Options \<open>a\<close>, \<open>b\<close>, \<open>c\<close>: the drag from \<open>a\<close> over \<open>b\<close> and \<open>c\<close> back to \<open>b\<close>, released on
  \<open>b\<close>, emits one \<^verbatim>\<open>ionChange\<close>, with the value \<open>b\<close>.
\<close>

theorem commit_only_on_settle_witness:
  "\<exists>s0 s1 s2.
     onStart (pointer_at 50 (Some (SegmentButton 0))) (mk_segment (Some ''a'') abc) = Inr s0 \<and>
     run_moves abc_moves s0 = Inr s1 \<and>
     onEnd (pointer_at 150 (Some (SegmentButton 1))) s1 = Inr s2 \<and> val s2 = Some ''b'' \<and>
     filter is_IonChange (new_effects (mk_segment (Some ''a'') abc) s1) = [] \<and>
     filter is_IonChange (new_effects (mk_segment (Some ''a'') abc) s2) = [IonChange (Some ''b'')]"
proof -
  let ?S = "mk_segment (Some ''a'') abc"
  from abc_session obtain s0 s1 s2 where
    a: "onStart (pointer_at 50 (Some (SegmentButton 0))) ?S = Inr s0"
       "run_moves abc_moves s0 = Inr s1"
       "onEnd (pointer_at 150 (Some (SegmentButton 1))) s1 = Inr s2" "val s2 = Some ''b''"
    by blast
  from commit_only_on_settle [of "pointer_at 50 (Some (SegmentButton 0))" ?S abc_moves
      "pointer_at 150 (Some (SegmentButton 1))"] a
  have "filter is_IonChange (new_effects ?S s1) = []"
    "filter is_IonChange (new_effects ?S s2) =
       (if val s2 \<noteq> None \<and> val s2 \<noteq> val ?S then [IonChange (val s2)] else [])"
    by auto
  moreover have "val ?S = Some ''a''"
    by (simp add: mk_segment_def)
  ultimately show ?thesis
    using a by (intro exI [of _ s0] exI [of _ s1] exI [of _ s2]) simp
qed

section \<open>Programmatic assignment is silent\<close>

text \<open>
  C2. An assignment of a new value to the \<^verbatim>\<open>value\<close> property (other than \<^verbatim>\<open>undefined\<close>
  on a group with a paged view and no button, which throws) returns, emits no
  \<^verbatim>\<open>ionChange\<close>, and emits \<^verbatim>\<open>ionSelect\<close> with the value the group then has. That value is
  the assigned one, except that \<^verbatim>\<open>undefined\<close> assigned to a group with a paged view is
  replaced by the first option's value.
\<close>

theorem programmatic_assignment_silent:
  assumes "v \<noteq> val s" "\<not> (v = None \<and> segmentViewEl s \<noteq> None \<and> buttons s = [])"
  shows "\<exists>s'. set_value v s = Inr s' \<and>
           (\<forall>e\<in>set (new_effects s s'). \<not> is_IonChange e) \<and>
           IonSelect (val s') \<in> set (new_effects s s') \<and>
           (v \<noteq> None \<or> segmentViewEl s = None \<longrightarrow> val s' = v) \<and>
           (v = None \<and> segmentViewEl s \<noteq> None \<longrightarrow> val s' = Some (btn_value (hd (buttons s))))"
proof (cases v)
  case (Some x)
  from set_value_defined [of x s] obtain s' t where
    "set_value (Some x) s = Inr s'" "val s' = Some x" "trace s' = trace s @ t"
    "val s \<noteq> Some x \<longrightarrow> IonSelect (Some x) \<in> set t" "\<forall>e\<in>set t. \<not> is_IonChange e"
    by blast
  with Some assms(1) show ?thesis
    by (intro exI [of _ s']) (auto simp: new_effects_append)
next
  case None
  have vs: "val s \<noteq> None"
    using assms(1) None by auto
  show ?thesis
  proof (cases "segmentViewEl s = None")
    case True
    from set_value_undefined_no_view [OF vs True] obtain s' t where
      "set_value None s = Inr s'" "val s' = None" "trace s' = trace s @ IonSelect None # t"
      "\<forall>e\<in>set t. \<not> is_IonChange e \<and> \<not> is_SetContent e \<and> \<not> is_IndicatorAnimation e"
      by blast
    with None True show ?thesis
      by (intro exI [of _ s']) (auto simp: new_effects_append)
  next
    case False
    with assms(2) None obtain b bs where bs: "buttons s = b # bs"
      by (cases "buttons s") auto
    have sv: "set_value None s = set_value (Some (btn_value b)) (s\<lparr>val := None\<rparr>)"
      using set_value_undefined_view [OF vs False bs] .
    from set_value_defined [of "btn_value b" "s\<lparr>val := None\<rparr>"] obtain s' t where
      "set_value (Some (btn_value b)) (s\<lparr>val := None\<rparr>) = Inr s'" "val s' = Some (btn_value b)"
      "trace s' = trace (s\<lparr>val := None\<rparr>) @ t"
      "val (s\<lparr>val := None\<rparr>) \<noteq> Some (btn_value b) \<longrightarrow> IonSelect (Some (btn_value b)) \<in> set t"
      "\<forall>e\<in>set t. \<not> is_IonChange e"
      by blast
    with None False sv bs show ?thesis
      by (intro exI [of _ s']) (auto simp: new_effects_append)
  qed
qed

theorem programmatic_assignment_silent_witness:
  "\<exists>s'. set_value (Some ''c'') (mk_segment (Some ''a'') abc) = Inr s' \<and> val s' = Some ''c'' \<and>
        filter is_IonChange (new_effects (mk_segment (Some ''a'') abc) s') = [] \<and>
        IonSelect (Some ''c'') \<in> set (new_effects (mk_segment (Some ''a'') abc) s')"
proof -
  have "Some ''c'' \<noteq> val (mk_segment (Some ''a'') abc)"
    "\<not> (Some ''c'' = None \<and> segmentViewEl (mk_segment (Some ''a'') abc) \<noteq> None \<and>
        buttons (mk_segment (Some ''a'') abc) = [])"
    by (simp_all add: mk_segment_def)
  from programmatic_assignment_silent [OF this] show ?thesis
    by (auto simp: filter_empty_conv)
qed

section \<open>The scroll handler\<close>

text \<open>
  C3. Whatever a scroll event of the paged view makes the handler do, the effects it adds
  to the trace hold no \<^verbatim>\<open>setContent\<close> call: the value it assigns is watched with
  \<^verbatim>\<open>triggerScrollOnValueChange\<close> set to \<^verbatim>\<open>false\<close>.
\<close>

theorem scroll_commit_never_sets_content:
  assumes "handleSegmentViewScroll ev s = Inr s'"
  shows "trace s' = trace s @ new_effects s s' \<and>
         (\<forall>e\<in>set (new_effects s s'). \<not> is_SetContent e)"
proof (cases "scroll_acts ev s")
  case False
  then have "s' = s" using assms by (simp add: scroll_idle)
  then show ?thesis by (simp add: new_effects_def)
next
  case True
  from assms True obtain i j where
    ij: "find_button s (val s) = Some i"
      "at_index [0..<length (buttons s)] (scroll_next_index ev s) = Some j"
    using scroll_acting_undefined [OF True] by (cases "find_button s (val s)";
      cases "at_index [0..<length (buttons s)] (scroll_next_index ev s)") auto
  from scroll_acting_summary [OF True ij] assms obtain s1 t where
    "s' = emitValueChange s1" "trace s1 = trace s @ t" "\<forall>e\<in>set t. \<not> is_SetContent e"
    by auto
  then have "trace s' = trace s @ (t @ [IonChange (val s1)])"
    "\<forall>e\<in>set (t @ [IonChange (val s1)]). \<not> is_SetContent e"
    by (simp_all add: emitValueChange_def emit_def)
  then show ?thesis
    using new_effects_append by metis
qed

text \<open>
  A scroll half way along three pages moves the value from \<open>a\<close> to \<open>b\<close> without a
  \<^verbatim>\<open>setContent\<close> call, where the assignment of \<open>b\<close> from outside makes one.
\<close>

theorem scroll_commit_never_sets_content_witness:
  "(\<exists>s'. handleSegmentViewScroll half_way paged_segment = Inr s' \<and> val s' = Some ''b'' \<and>
      filter is_SetContent (new_effects paged_segment s') = []) \<and>
   (\<exists>s'. set_value (Some ''b'') paged_segment = Inr s' \<and>
      filter is_SetContent (new_effects paged_segment s') = [SetContent ''page-b'' True])"
proof -
  from paged_segment_half obtain s' where
    h: "handleSegmentViewScroll half_way paged_segment = Inr s'" and v: "val s' = Some ''b''"
    by blast
  from scroll_commit_never_sets_content [OF h] have
    "filter is_SetContent (new_effects paged_segment s') = []"
    by (simp add: filter_empty_conv)
  with h v have "\<exists>s'. handleSegmentViewScroll half_way paged_segment = Inr s' \<and>
      val s' = Some ''b'' \<and> filter is_SetContent (new_effects paged_segment s') = []"
    by blast
  moreover from paged_segment_assigned have
    "\<exists>s'. set_value (Some ''b'') paged_segment = Inr s' \<and>
      filter is_SetContent (new_effects paged_segment s') = [SetContent ''page-b'' True]"
    by auto
  ultimately show ?thesis by blast
qed

text \<open>
  C4. When a scroll event passes the handler's guards and the handler returns, the same
  event once more changes nothing. Over the two events \<^verbatim>\<open>ionChange\<close> is emitted
  exactly once, and with a paged view attached and the indicator present on both buttons
  the indicator animation is scheduled exactly once.
\<close>

theorem repeated_scroll_ratio_idempotent:
  assumes "scroll_acts ev s" "handleSegmentViewScroll ev s = Inr s1"
  shows "\<exists>s2. handleSegmentViewScroll ev s1 = Inr s2 \<and> s2 = s1 \<and>
           length (filter is_IonChange (new_effects s s2)) = 1 \<and>
           (\<forall>i j. segmentViewEl s \<noteq> None \<and> find_button s (val s) = Some i \<and>
                  getIndicator s (SegmentButton i) \<and>
                  scroll_next_index ev s = int j \<and> getIndicator s (SegmentButton j) \<longrightarrow>
               length (filter is_IndicatorAnimation (new_effects s s2)) = 1)"
proof -
  from assms obtain i j where
    ij: "find_button s (val s) = Some i"
      "at_index [0..<length (buttons s)] (scroll_next_index ev s) = Some j"
    using scroll_acting_undefined [OF assms(1)] by (cases "find_button s (val s)";
      cases "at_index [0..<length (buttons s)] (scroll_next_index ev s)") auto
  from scroll_acting_summary [OF assms(1) ij] assms(2) obtain s' t where
    s1: "s1 = emitValueChange s'" and tr: "trace s' = trace s @ t"
    and ic: "\<forall>e\<in>set t. \<not> is_IonChange e"
    and an: "segmentViewEl s \<noteq> None \<longrightarrow>
              length (filter is_IndicatorAnimation t) =
                (if getIndicator s (SegmentButton i) \<and> getIndicator s (SegmentButton j)
                 then 1 else 0)"
    by auto
  have ne: "new_effects s s1 = t @ [IonChange (val s')]"
    using tr by (simp add: s1 emitValueChange_def emit_def new_effects_def)
  have j: "\<And>k. scroll_next_index ev s = int k \<Longrightarrow> k = j"
    using ij(2) by (auto simp: at_index_def split: if_splits)
  have "length (filter is_IonChange (new_effects s s1)) = 1"
    using ic by (simp add: ne filter_empty_conv)
  moreover have "\<forall>i' j'. segmentViewEl s \<noteq> None \<and> find_button s (val s) = Some i' \<and>
                  getIndicator s (SegmentButton i') \<and>
                  scroll_next_index ev s = int j' \<and> getIndicator s (SegmentButton j') \<longrightarrow>
               length (filter is_IndicatorAnimation (new_effects s s1)) = 1"
    using an ij(1) j by (auto simp: ne)
  ultimately show ?thesis
    using scroll_twice [OF assms(2)] by simp
qed

theorem repeated_scroll_ratio_idempotent_witness:
  "\<exists>s1. handleSegmentViewScroll half_way paged_segment = Inr s1 \<and>
    handleSegmentViewScroll half_way s1 = Inr s1 \<and>
    length (filter is_IonChange (new_effects paged_segment s1)) = 1 \<and>
    length (filter is_IndicatorAnimation (new_effects paged_segment s1)) = 1"
proof -
  from paged_segment_half obtain s1 where
    h: "handleSegmentViewScroll half_way paged_segment = Inr s1"
    by blast
  have a: "scroll_acts half_way paged_segment"
    by (simp add: scroll_acts_def scroll_next_index_def Math_round_def paged_segment_def
        half_way_def mk_segment_def)
  have b: "segmentViewEl paged_segment \<noteq> None \<and>
      find_button paged_segment (val paged_segment) = Some 0 \<and>
      getIndicator paged_segment (SegmentButton 0) \<and>
      scroll_next_index half_way paged_segment = int 1 \<and>
      getIndicator paged_segment (SegmentButton 1)"
    by (simp add: scroll_next_index_def Math_round_def find_button_def getIndicator_def
        paged_segment_def half_way_def mk_segment_def mk_button_def)
  from repeated_scroll_ratio_idempotent [OF a h] b h show ?thesis
    by blast
qed

text \<open>
  C5, as the code has it. The handler does not clamp. For a ratio within \<open>[0, 1]\<close> and at
  least one button the derived index lies within \<open>[0, count - 1]\<close>, the button read at it
  exists, and with a checked button the handler returns.
\<close>

theorem scroll_index_in_range:
  assumes "0 \<le> scrollRatio ev" "scrollRatio ev \<le> 1" "buttons s \<noteq> []"
  shows "0 \<le> scroll_next_index ev s \<and> scroll_next_index ev s < int (length (buttons s)) \<and>
         at_index [0..<length (buttons s)] (scroll_next_index ev s)
           = Some (nat (scroll_next_index ev s)) \<and>
         (find_button s (val s) \<noteq> None \<longrightarrow> (\<exists>s'. handleSegmentViewScroll ev s = Inr s'))"
proof -
  have r: "0 \<le> scroll_next_index ev s \<and> scroll_next_index ev s < int (length (buttons s))"
    unfolding scroll_next_index_def using assms by (intro Math_round_range) simp_all
  then have "nat (scroll_next_index ev s) < length (buttons s)"
    by linarith
  with r have a: "at_index [0..<length (buttons s)] (scroll_next_index ev s)
           = Some (nat (scroll_next_index ev s))"
    by (simp add: at_index_def)
  have "\<exists>s'. handleSegmentViewScroll ev s = Inr s'" if "find_button s (val s) \<noteq> None"
  proof (cases "scroll_acts ev s")
    case False
    then show ?thesis by (simp add: scroll_idle)
  next
    case True
    from that obtain i where "find_button s (val s) = Some i" by auto
    from scroll_acting_summary [OF True this a] show ?thesis by blast
  qed
  with r a show ?thesis by blast
qed

theorem scroll_index_in_range_witness:
  "scroll_next_index half_way paged_segment = 1 \<and>
   (\<exists>s'. handleSegmentViewScroll half_way paged_segment = Inr s')"
proof -
  have "0 \<le> scrollRatio half_way" "scrollRatio half_way \<le> 1" "buttons paged_segment \<noteq> []"
    by (simp_all add: paged_segment_def half_way_def mk_segment_def)
  from scroll_index_in_range [OF this]
  have "find_button paged_segment (val paged_segment) \<noteq> None \<longrightarrow>
        (\<exists>s'. handleSegmentViewScroll half_way paged_segment = Inr s')"
    by blast
  moreover have "find_button paged_segment (val paged_segment) \<noteq> None"
    by (simp add: find_button_def paged_segment_def half_way_def mk_segment_def mk_button_def)
  moreover have "scroll_next_index half_way paged_segment = 1"
    by (simp add: scroll_next_index_def Math_round_def paged_segment_def half_way_def
        mk_segment_def)
  ultimately show ?thesis by blast
qed

text \<open>
  The claim as the specification words it (the index is clamped, so that a ratio above 1
  reads no button out of bounds) fails: with three buttons the ratio 2 gives the index 4,
  and the handler throws on the button missing there.
\<close>

theorem scroll_index_unclamped_counterexample:
  "scroll_next_index \<lparr>scrollRatio = 2, isManualScroll = True, fromSegmentView = True\<rparr>
      view_segment = 4 \<and>
   length (buttons view_segment) = 3 \<and>
   handleSegmentViewScroll \<lparr>scrollRatio = 2, isManualScroll = True, fromSegmentView = True\<rparr>
      view_segment = Inl TypeError"
  by (simp add: handleSegmentViewScroll_def scroll_next_index_def Math_round_def at_index_def
      checkButton.simps find_button_def view_segment_def mk_segment_def abc_def mk_button_def
      Let_def)

section \<open>Moves of the drag\<close>

text \<open>
  C6. During a drag with the indicator activated, a move event whose pointer has crossed
  an edge of the checked button's box (a box of a width that is not negative, as every
  bounding client rectangle is) aims at the neighbour \<open>crossing_target\<close> names:
  index minus one over the left edge in left-to-right mode, index plus one in
  right-to-left mode, and the reverse over the right edge. A target outside
  \<open>[0, count - 1]\<close> and a disabled target leave the state as it is; otherwise (the
  indicators present) the target's value becomes the group's value. When every neighbour
  of the checked option is disabled no sequence of moves changes anything: with three
  options and the middle one disabled, no move of a drag begun on the first selects the
  second.
\<close>

theorem drag_move_steps:
  assumes "activated s" "find_button s (val s) = Some i" "0 \<le> rect_width (buttons s ! i)"
  shows "(case crossing_target s d i of
            None \<Rightarrow> onMove d s = Inr s
          | Some k \<Rightarrow>
              if k < 0 \<or> int (length (buttons s)) \<le> k then onMove d s = Inr s
              else if btn_disabled (buttons s ! nat k) then onMove d s = Inr s
              else (getIndicator s (SegmentButton i) \<and> getIndicator s (SegmentButton (nat k)) \<longrightarrow>
                     (\<exists>s'. onMove d s = Inr s' \<and>
                           val s' = Some (btn_value (buttons s ! nat k))))) \<and>
         ((\<forall>k. (Suc k = i \<or> k = Suc i) \<and> k < length (buttons s) \<longrightarrow>
               btn_disabled (buttons s ! k)) \<longrightarrow>
            run_moves ds s = Inr s)"
proof (intro conjI impI)
  show "case crossing_target s d i of
            None \<Rightarrow> onMove d s = Inr s
          | Some k \<Rightarrow>
              if k < 0 \<or> int (length (buttons s)) \<le> k then onMove d s = Inr s
              else if btn_disabled (buttons s ! nat k) then onMove d s = Inr s
              else (getIndicator s (SegmentButton i) \<and> getIndicator s (SegmentButton (nat k)) \<longrightarrow>
                     (\<exists>s'. onMove d s = Inr s' \<and>
                           val s' = Some (btn_value (buttons s ! nat k))))"
  proof (cases "crossing_target s d i")
    case None
    then show ?thesis by (simp add: onMove_target [OF assms])
  next
    case (Some k)
    have "\<exists>s'. checkButton (Some (SegmentButton i)) (Some (SegmentButton (nat k))) s = Inr s' \<and>
               val s' = Some (btn_value (buttons s ! nat k))"
      if "getIndicator s (SegmentButton i)" "getIndicator s (SegmentButton (nat k))"
      using checkButton_cases [of "SegmentButton i" "SegmentButton (nat k)" s] that
      by auto
    with Some show ?thesis
      by (simp add: onMove_target [OF assms])
  qed
next
  assume b: "\<forall>k. (Suc k = i \<or> k = Suc i) \<and> k < length (buttons s) \<longrightarrow>
               btn_disabled (buttons s ! k)"
  show "run_moves ds s = Inr s"
    by (induction ds) (simp_all add: onMove_blocked [OF assms b])
qed

theorem drag_move_steps_witness:
  "run_moves [pointer_at 150 (Some SegmentEl), pointer_at 250 (Some (SegmentButton 2))]
      middle_disabled_segment = Inr middle_disabled_segment \<and>
   val middle_disabled_segment = Some ''a'' \<and>
   (\<exists>s'. onMove (pointer_at 150 (Some (SegmentButton 1))) drag_segment = Inr s' \<and>
         val s' = Some ''b'') \<and>
   (\<exists>s'. onMove (pointer_at (- 10) None) (drag_segment\<lparr>rtl := True\<rparr>) = Inr s' \<and>
         val s' = Some ''b'')"
proof -
  have m: "activated middle_disabled_segment"
    "find_button middle_disabled_segment (val middle_disabled_segment) = Some 0"
    "0 \<le> rect_width (buttons middle_disabled_segment ! 0)"
    "\<forall>k. (Suc k = 0 \<or> k = Suc 0) \<and> k < length (buttons middle_disabled_segment) \<longrightarrow>
         btn_disabled (buttons middle_disabled_segment ! k)"
    by (simp_all add: middle_disabled_segment_def mk_segment_def mk_button_def find_button_def)
  have 1: "run_moves [pointer_at 150 (Some SegmentEl), pointer_at 250 (Some (SegmentButton 2))]
      middle_disabled_segment = Inr middle_disabled_segment"
    using drag_move_steps [OF m(1-3), THEN conjunct2] m(4) by blast
  have l: "activated drag_segment" "find_button drag_segment (val drag_segment) = Some 0"
    "0 \<le> rect_width (buttons drag_segment ! 0)"
    by (simp_all add: drag_segment_def mk_segment_def abc_def mk_button_def find_button_def)
  have lc: "crossing_target drag_segment (pointer_at 150 (Some (SegmentButton 1))) 0 = Some 1"
    "length (buttons drag_segment) = 3" "\<not> btn_disabled (buttons drag_segment ! 1)"
    "getIndicator drag_segment (SegmentButton 0)" "getIndicator drag_segment (SegmentButton 1)"
    "btn_value (buttons drag_segment ! 1) = ''b''"
    by (simp_all add: crossing_target_def pointer_at_def getIndicator_def drag_segment_def
        mk_segment_def abc_def mk_button_def)
  have 2: "\<exists>s'. onMove (pointer_at 150 (Some (SegmentButton 1))) drag_segment = Inr s' \<and>
         val s' = Some ''b''"
    using drag_move_steps [OF l, THEN conjunct1, of "pointer_at 150 (Some (SegmentButton 1))"] lc
    by simp
  have r: "activated (drag_segment\<lparr>rtl := True\<rparr>)"
    "find_button (drag_segment\<lparr>rtl := True\<rparr>) (val (drag_segment\<lparr>rtl := True\<rparr>)) = Some 0"
    "0 \<le> rect_width (buttons (drag_segment\<lparr>rtl := True\<rparr>) ! 0)"
    by (simp_all add: drag_segment_def mk_segment_def abc_def mk_button_def find_button_def)
  have rc: "crossing_target (drag_segment\<lparr>rtl := True\<rparr>) (pointer_at (- 10) None) 0 = Some 1"
    "length (buttons (drag_segment\<lparr>rtl := True\<rparr>)) = 3"
    "\<not> btn_disabled (buttons (drag_segment\<lparr>rtl := True\<rparr>) ! 1)"
    "getIndicator (drag_segment\<lparr>rtl := True\<rparr>) (SegmentButton 0)"
    "getIndicator (drag_segment\<lparr>rtl := True\<rparr>) (SegmentButton 1)"
    "btn_value (buttons (drag_segment\<lparr>rtl := True\<rparr>) ! 1) = ''b''"
    by (simp_all add: crossing_target_def pointer_at_def getIndicator_def drag_segment_def
        mk_segment_def abc_def mk_button_def)
  have 3: "\<exists>s'. onMove (pointer_at (- 10) None) (drag_segment\<lparr>rtl := True\<rparr>) = Inr s' \<and>
         val s' = Some ''b''"
    using drag_move_steps [OF r, THEN conjunct1, of "pointer_at (- 10) None"] rc
    by simp
  have 4: "val middle_disabled_segment = Some ''a''"
    by (simp add: middle_disabled_segment_def mk_segment_def)
  from 1 4 2 3 show ?thesis by blast
qed

section \<open>The default value with a paged view\<close>

text \<open>
  C7, as the code has it. A group with a paged view attached, an option and no value: when
  the value is first resolved (the slot change runs the watcher) the value becomes the
  first option's value and \<^verbatim>\<open>ionSelect\<close> is emitted with it. \<^verbatim>\<open>setContent\<close> is called on the
  view, with the first option's content id, exactly when that option has a content id
  that is not empty; \<^verbatim>\<open>updateSegmentView\<close> returns at its guard otherwise.
\<close>

theorem default_with_view:
  assumes "val s = None" "segmentViewEl s \<noteq> None" "buttons s = b # bs"
  shows "\<exists>s'. onSlottedItemsChange s = Inr s' \<and> val s' = Some (btn_value b) \<and>
              new_effects s s' =
                (case contentId b of
                   None \<Rightarrow> [IonSelect (Some (btn_value b))]
                 | Some c \<Rightarrow>
                     if c = [] then [IonSelect (Some (btn_value b))]
                     else [SetContent c True, IonSelect (Some (btn_value b))])"
  using assms
  by (auto simp: onSlottedItemsChange_def valueChanged.simps set_value.simps
      updateSegmentView_def find_button_def emit_def new_effects_def Let_def
      split: option.splits)

theorem default_with_view_witness:
  "(\<exists>s'. onSlottedItemsChange content_segment = Inr s' \<and> val s' = Some ''a'' \<and>
         new_effects content_segment s' = [SetContent ''page-a'' True, IonSelect (Some ''a'')]) \<and>
   (\<exists>s'. onSlottedItemsChange late_content_segment = Inr s' \<and> val s' = Some ''a'' \<and>
         new_effects late_content_segment s' = [IonSelect (Some ''a'')])"
proof -
  have "val content_segment = None" "segmentViewEl content_segment \<noteq> None"
    "buttons content_segment = (mk_button ''a'' 0)\<lparr>contentId := Some ''page-a''\<rparr> #
        [(mk_button ''b'' 100)\<lparr>contentId := Some ''page-b''\<rparr>]"
    by (simp_all add: content_segment_def mk_segment_def)
  from default_with_view [OF this] have 1:
    "\<exists>s'. onSlottedItemsChange content_segment = Inr s' \<and> val s' = Some ''a'' \<and>
         new_effects content_segment s' = [SetContent ''page-a'' True, IonSelect (Some ''a'')]"
    by (simp add: mk_button_def)
  have "val late_content_segment = None" "segmentViewEl late_content_segment \<noteq> None"
    "buttons late_content_segment =
       mk_button ''a'' 0 # [(mk_button ''b'' 100)\<lparr>contentId := Some ''page-b''\<rparr>]"
    by (simp_all add: late_content_segment_def mk_segment_def)
  from default_with_view [OF this] have 2:
    "\<exists>s'. onSlottedItemsChange late_content_segment = Inr s' \<and> val s' = Some ''a'' \<and>
         new_effects late_content_segment s' = [IonSelect (Some ''a'')]"
    by (simp add: mk_button_def)
  from 1 2 show ?thesis by blast
qed

text \<open>
  The claim as the specification words it (for every group with a paged view and no
  value a \<^verbatim>\<open>setContent\<close> call is issued) fails: the view is found through the first
  option that has a content id, which need not be the first option, and for a first
  option without one the default is assigned and no \<^verbatim>\<open>setContent\<close> call is made.
\<close>

theorem default_without_content_counterexample:
  "val late_content_segment = None \<and> segmentViewEl late_content_segment = Some False \<and>
   (\<exists>s'. onSlottedItemsChange late_content_segment = Inr s' \<and> val s' = Some ''a'' \<and>
         new_effects late_content_segment s' = [IonSelect (Some ''a'')] \<and>
         filter is_SetContent (new_effects late_content_segment s') = [])"
  by (simp add: onSlottedItemsChange_def valueChanged.simps set_value.simps
      updateSegmentView_def find_button_def emit_def new_effects_def Let_def
      late_content_segment_def mk_segment_def mk_button_def)

section \<open>The indicator move without an indicator element\<close>

text \<open>
  C8, as the code has it. When the indicator element is missing on the source or on the
  destination button, \<^verbatim>\<open>checkButton\<close> returns at its guard: no animation is scheduled, and
  the value is not assigned either, the whole state is as before.
\<close>

theorem checkButton_without_indicator:
  "\<not> getIndicator s p \<or> \<not> getIndicator s c \<Longrightarrow> checkButton (Some p) (Some c) s = Inr s"
  by (auto simp: checkButton.simps)

theorem checkButton_without_indicator_witness:
  "\<not> getIndicator no_indicator_segment (SegmentButton 1) \<and>
   checkButton (Some (SegmentButton 0)) (Some (SegmentButton 1)) no_indicator_segment
     = Inr no_indicator_segment"
proof -
  have h: "\<not> getIndicator no_indicator_segment (SegmentButton 1)"
    by (simp add: getIndicator_def no_indicator_segment_def mk_segment_def mk_button_def)
  then have "\<not> getIndicator no_indicator_segment (SegmentButton 0) \<or>
             \<not> getIndicator no_indicator_segment (SegmentButton 1)"
    by simp
  from checkButton_without_indicator [OF this] h show ?thesis
    by simp
qed

text \<open>
  The claim as the specification words it (the value still updates to the destination's
  value) fails: a drag over the edge of the checked button towards a button without an
  indicator leaves the value where it was.
\<close>

theorem value_not_updated_counterexample:
  "onMove \<lparr>currentX = 150, target = SegmentButton 0, elementFromPoint = Some (SegmentButton 1)\<rparr>
      no_indicator_segment = Inr no_indicator_segment \<and>
   checkButton (Some (SegmentButton 0)) (Some (SegmentButton 1)) no_indicator_segment
     = Inr no_indicator_segment \<and>
   \<not> getIndicator no_indicator_segment (SegmentButton 1) \<and>
   val no_indicator_segment \<noteq> Some (btn_value (buttons no_indicator_segment ! 1))"
  by (simp add: onMove_def setNextIndex_def checkButton.simps getIndicator_def find_button_def
      no_indicator_segment_def mk_segment_def mk_button_def)

section \<open>The disabled property\<close>

text \<open>
  C9, as the code has it. When the \<^verbatim>\<open>disabled\<close> property changes and no paged view is
  attached, every button's disabled flag becomes the group's; with a paged view attached
  the flag goes to the view's \<^verbatim>\<open>disabled\<close> property and the buttons are left as they are.
\<close>

theorem disabled_cascade:
  assumes "d \<noteq> disabled s"
  shows "disabled (set_disabled d s) = d \<and>
         map btn_value (buttons (set_disabled d s)) = map btn_value (buttons s) \<and>
         (segmentViewEl s = None \<longrightarrow>
            (\<forall>b\<in>set (buttons (set_disabled d s)). btn_disabled b = d)) \<and>
         (segmentViewEl s \<noteq> None \<longrightarrow>
            buttons (set_disabled d s) = buttons s \<and> segmentViewEl (set_disabled d s) = Some d)"
  using assms
  by (auto simp: set_disabled_def disabledChanged_def gestureChanged_def Let_def comp_def
      split: option.splits)

theorem disabled_cascade_witness:
  "map btn_disabled (buttons (set_disabled True (mk_segment (Some ''a'') abc)))
     = [True, True, True] \<and>
   buttons (set_disabled True view_segment) = buttons view_segment \<and>
   segmentViewEl (set_disabled True view_segment) = Some True"
proof -
  let ?bs = "buttons (set_disabled True (mk_segment (Some ''a'') abc))"
  have all: "\<forall>b\<in>set ?bs. btn_disabled b"
    using disabled_cascade [of True "mk_segment (Some ''a'') abc"]
    by (simp add: mk_segment_def)
  have "length (map btn_value ?bs) = length (map btn_value abc)"
    using disabled_cascade [of True "mk_segment (Some ''a'') abc"]
    by (simp add: mk_segment_def)
  then have "length ?bs = Suc (Suc (Suc 0))"
    by (simp add: abc_def)
  then obtain x y z where "?bs = [x, y, z]"
    by (auto simp: length_Suc_conv)
  with all have "map btn_disabled ?bs = [True, True, True]"
    by simp
  then show ?thesis
    using disabled_cascade [of True view_segment]
    by (simp add: view_segment_def mk_segment_def)
qed

theorem disabled_cascade_counterexample:
  "disabled (set_disabled True view_segment) \<and>
   \<not> btn_disabled (buttons (set_disabled True view_segment) ! 0)"
  by (simp add: set_disabled_def disabledChanged_def gestureChanged_def view_segment_def
      mk_segment_def abc_def mk_button_def)

section \<open>Keyboard navigation wraps around\<close>

lemma findIndex_distinct:
  "distinct xs \<Longrightarrow> k < length xs \<Longrightarrow> findIndex ((=) (xs ! k)) xs = Some k"
proof (induction xs arbitrary: k)
  case Nil
  then show ?case by simp
next
  case (Cons x xs)
  show ?case
  proof (cases k)
    case 0
    then show ?thesis by simp
  next
    case (Suc m)
    with Cons.prems have "xs ! m \<noteq> x" "m < length xs" "distinct xs"
      by auto
    with Cons.IH [of m] Suc show ?thesis by auto
  qed
qed

lemma distinct_enabled_buttons: "distinct (enabled_buttons s)"
  by (simp add: enabled_buttons_def)

text \<open>
  C10. In a group with a non-disabled option, \<^verbatim>\<open>getSegmentButton('next')\<close> with the focus
  on the last non-disabled option is the first non-disabled option, and
  \<^verbatim>\<open>getSegmentButton('previous')\<close> with the focus on the first one is the last one.
\<close>

theorem arrow_navigation_wraps:
  assumes "enabled_buttons s \<noteq> []"
  shows "(activeElement s = Some (SegmentButton (last (enabled_buttons s))) \<longrightarrow>
            getSegmentButton Next s = Some (hd (enabled_buttons s))) \<and>
         (activeElement s = Some (SegmentButton (hd (enabled_buttons s))) \<longrightarrow>
            getSegmentButton Previous s = Some (last (enabled_buttons s)))"
proof (intro conjI impI)
  let ?bs = "enabled_buttons s"
  have len: "0 < length ?bs" using assms by simp
  {
    assume a: "activeElement s = Some (SegmentButton (last ?bs))"
    have "findIndex ((=) (last ?bs)) ?bs = Some (length ?bs - 1)"
      using findIndex_distinct [OF distinct_enabled_buttons, of "length ?bs - 1" s] len assms
      by (simp add: last_conv_nth)
    then have "findIndex (\<lambda>i. activeElement s = Some (SegmentButton i)) ?bs
                 = Some (length ?bs - 1)"
      by (simp add: a)
    moreover have "at_index ?bs (int (length ?bs - 1) + 1) = None"
      unfolding at_index_def using len by auto
    moreover have "at_index ?bs 0 = Some (hd ?bs)"
      unfolding at_index_def using len assms by (simp add: hd_conv_nth)
    ultimately show "getSegmentButton Next s = Some (hd ?bs)"
      by (simp add: getSegmentButton_def Let_def or_else_def)
  }
  {
    assume a: "activeElement s = Some (SegmentButton (hd ?bs))"
    have "findIndex ((=) (hd ?bs)) ?bs = Some 0"
      using findIndex_distinct [OF distinct_enabled_buttons, of 0 s] len assms
      by (simp add: hd_conv_nth)
    then have "findIndex (\<lambda>i. activeElement s = Some (SegmentButton i)) ?bs = Some 0"
      by (simp add: a)
    moreover have "nat (int (length ?bs) - 1) = length ?bs - 1"
      by linarith
    then have "at_index ?bs (int (length ?bs) - 1) = Some (last ?bs)"
      unfolding at_index_def using len assms by (simp add: last_conv_nth)
    moreover have "at_index ?bs (int 0 - 1) = None"
      unfolding at_index_def by simp
    ultimately show "getSegmentButton Previous s = Some (last ?bs)"
      by (simp add: getSegmentButton_def Let_def or_else_def)
  }
qed

lemma enabled_keyboard_segment: "enabled_buttons keyboard_segment = [1, 2, 3]"
  by (simp add: enabled_buttons_def keyboard_segment_def mk_segment_def mk_button_def upt_rec)

theorem arrow_navigation_wraps_witness:
  "enabled_buttons keyboard_segment \<noteq> [] \<and>
   getSegmentButton Next (keyboard_segment\<lparr>activeElement := Some (SegmentButton 3)\<rparr>) = Some 1 \<and>
   getSegmentButton Previous (keyboard_segment\<lparr>activeElement := Some (SegmentButton 1)\<rparr>) = Some 3"
proof -
  have e: "\<And>a. enabled_buttons (keyboard_segment\<lparr>activeElement := a\<rparr>) = [1, 2, 3]"
    using enabled_keyboard_segment by (simp add: enabled_buttons_def)
  show ?thesis
    using arrow_navigation_wraps [of "keyboard_segment\<lparr>activeElement := Some (SegmentButton 3)\<rparr>"]
          arrow_navigation_wraps [of "keyboard_segment\<lparr>activeElement := Some (SegmentButton 1)\<rparr>"]
    by (simp add: e enabled_keyboard_segment)
qed

end
